theory Spec2Isabelle
  imports Main
begin

section \<open>Data model\<close>

text \<open>
  The inventory grid component (\<^verbatim>\<open>src/unnamed/part_000\<close>) packs slots into a grid of
  \<^verbatim>\<open>cols\<close> columns. JavaScript numbers are modelled as \<open>int\<close>: the model covers the
  integer-valued inputs (grid coordinates and cell counts), negative ones included.
  A field that may be \<^verbatim>\<open>undefined\<close> is an \<open>option\<close>.

  Of a \<^verbatim>\<open>Slot\<close> the code reads \<^verbatim>\<open>slot\<close> (its number), \<^verbatim>\<open>name\<close> (undefined for a slot
  that holds no item) and the server-assigned \<^verbatim>\<open>gridX\<close>, \<^verbatim>\<open>gridY\<close>, which \<^verbatim>\<open>packItems\<close>
  reads at the type \<^verbatim>\<open>number | undefined\<close>.
\<close>

record Slot =
  slot :: int
  name :: "string option"
  gridX :: "int option"
  gridY :: "int option"

text \<open>
  \<^verbatim>\<open>interface Placement { slot; col; row; w; h }\<close>. The fields carry the prefix \<open>p\<close> so
  that \<open>col\<close>, \<open>row\<close>, \<open>w\<close> and \<open>h\<close> stay free for the parameters of the functions below.
\<close>

record Placement =
  pslot :: int
  pcol :: int
  prow :: int
  pw :: int
  ph :: int

text \<open>The value returned by \<^verbatim>\<open>packItems\<close>: \<^verbatim>\<open>{ placements, rows }\<close>.\<close>

record PackResult =
  placements :: "Placement list"
  rows :: int

text \<open>
  The exceptions the code can raise: writing a property of \<^verbatim>\<open>undefined\<close> (a row that does not
  exist) is a \<^verbatim>\<open>TypeError\<close>, \<^verbatim>\<open>new Array(cols)\<close> with a negative length is a \<^verbatim>\<open>RangeError\<close>.
\<close>

datatype error = TypeError | RangeError

text \<open>
  \<^verbatim>\<open>const occupied: boolean[][]\<close>: a list of rows, each a list of cells. Only the length of
  the outer array is ever read.
\<close>

type_synonym grid = "bool list list"

definition GRID_COLS :: int where
  "GRID_COLS = 10"

section \<open>The occupancy grid\<close>

text \<open>
  \<^verbatim>\<open>occupied[r][c] = true\<close> on the row array: an index inside the array overwrites the cell,
  an index beyond its end extends the array (the cells in between are holes, which read as
  \<^verbatim>\<open>undefined\<close>, that is as false). A negative index sets a property that is no element of
  the array; \<^verbatim>\<open>findFree\<close> only reads indices \<open>c + dc \<ge> 0\<close>, so the row is left as it is.
\<close>

definition setCell :: "bool list \<Rightarrow> int \<Rightarrow> bool list" where
  "setCell cells c =
     (if c < 0 then cells
      else if nat c < length cells then cells[nat c := True]
      else cells @ replicate (nat c - length cells) False @ [True])"

text \<open>
  \<^verbatim>\<open>occupied[r][c]\<close> as a condition: \<^verbatim>\<open>occupied[r]\<close> is \<^verbatim>\<open>undefined\<close> when \<open>r\<close> is no index of
  the outer array, and reading a property of it raises; a cell beyond the end of the row is
  \<^verbatim>\<open>undefined\<close>, which is falsy.
\<close>

definition readCell :: "grid \<Rightarrow> int \<Rightarrow> int \<Rightarrow> error + bool" where
  "readCell occupied r c =
     (if r < 0 \<or> int (length occupied) \<le> r then Inl TypeError
      else Inr (0 \<le> c \<and> nat c < length (occupied ! nat r) \<and> occupied ! nat r ! nat c))"

text \<open>
  \<^verbatim>\<open>while (occupied.length <= maxRow) occupied.push(new Array(cols).fill(false))\<close>
\<close>

function ensureRows :: "int \<Rightarrow> grid \<Rightarrow> int \<Rightarrow> error + grid" where
  "ensureRows cols occupied maxRow =
     (if int (length occupied) \<le> maxRow
      then (if cols < 0 then Inl RangeError
            else ensureRows cols (occupied @ [replicate (nat cols) False]) maxRow)
      else Inr occupied)"
  by pat_completeness auto
termination
  by (relation "measure (\<lambda>(cols, occupied, maxRow). nat (maxRow + 1 - int (length occupied)))") auto

declare ensureRows.simps [simp del]

text \<open>
  The inner loop of \<^verbatim>\<open>markOccupied\<close>:
  \<^verbatim>\<open>for (let c = col; c < col + w; c++) occupied[r][c] = true\<close>, with \<open>cend = col + w\<close>.
\<close>

function markCells :: "grid \<Rightarrow> int \<Rightarrow> int \<Rightarrow> int \<Rightarrow> error + grid" where
  "markCells occupied r c cend =
     (if c < cend
      then (if r < 0 \<or> int (length occupied) \<le> r then Inl TypeError
            else markCells (occupied[nat r := setCell (occupied ! nat r) c]) r (c + 1) cend)
      else Inr occupied)"
  by pat_completeness auto
termination
  by (relation "measure (\<lambda>(occupied, r, c, cend). nat (cend - c))") auto

declare markCells.simps [simp del]

text \<open>
  The outer loop of \<^verbatim>\<open>markOccupied\<close>:
  \<^verbatim>\<open>for (let r = row; r < row + h; r++) { ensureRows(r); ... }\<close>, with \<open>rend = row + h\<close>.
\<close>

function markRows :: "int \<Rightarrow> grid \<Rightarrow> int \<Rightarrow> int \<Rightarrow> int \<Rightarrow> int \<Rightarrow> error + grid" where
  "markRows cols occupied col w r rend =
     (if r < rend
      then (case ensureRows cols occupied r of
              Inl e \<Rightarrow> Inl e
            | Inr occ1 \<Rightarrow>
                (case markCells occ1 r col (col + w) of
                   Inl e \<Rightarrow> Inl e
                 | Inr occ2 \<Rightarrow> markRows cols occ2 col w (r + 1) rend))
      else Inr occupied)"
  by pat_completeness auto
termination
  by (relation "measure (\<lambda>(cols, occupied, col, w, r, rend). nat (rend - r))") auto

declare markRows.simps [simp del]

definition markOccupied :: "int \<Rightarrow> grid \<Rightarrow> int \<Rightarrow> int \<Rightarrow> int \<Rightarrow> int \<Rightarrow> error + grid" where
  "markOccupied cols occupied col row w h = markRows cols occupied col w row (row + h)"

section \<open>The first-fit search\<close>

text \<open>
  The innermost loop of \<^verbatim>\<open>findFree\<close>, over \<open>dc\<close>, on the row \<open>r + dr\<close> (here \<open>rr\<close>): the
  result is False as soon as an occupied cell is read (\<^verbatim>\<open>fits = false; break outer\<close>).
\<close>

function fitsCells :: "grid \<Rightarrow> int \<Rightarrow> int \<Rightarrow> int \<Rightarrow> int \<Rightarrow> error + bool" where
  "fitsCells occupied w rr c dc =
     (if dc < w
      then (case readCell occupied rr (c + dc) of
              Inl e \<Rightarrow> Inl e
            | Inr b \<Rightarrow> if b then Inr False else fitsCells occupied w rr c (dc + 1))
      else Inr True)"
  by pat_completeness auto
termination
  by (relation "measure (\<lambda>(occupied, w, rr, c, dc). nat (w - dc))") auto

declare fitsCells.simps [simp del]

text \<open>
  The loop over \<open>dr\<close> (labelled \<^verbatim>\<open>outer\<close>): \<^verbatim>\<open>ensureRows(r + dr)\<close>, then the cells of that row.
  It returns the grid, which \<^verbatim>\<open>ensureRows\<close> may have extended, and \<^verbatim>\<open>fits\<close>.
\<close>

function fitsRows :: "int \<Rightarrow> grid \<Rightarrow> int \<Rightarrow> int \<Rightarrow> int \<Rightarrow> int \<Rightarrow> int \<Rightarrow> error + grid \<times> bool" where
  "fitsRows cols occupied w h r c dr =
     (if dr < h
      then (case ensureRows cols occupied (r + dr) of
              Inl e \<Rightarrow> Inl e
            | Inr occ1 \<Rightarrow>
                (case fitsCells occ1 w (r + dr) c 0 of
                   Inl e \<Rightarrow> Inl e
                 | Inr b \<Rightarrow> if b then fitsRows cols occ1 w h r c (dr + 1) else Inr (occ1, False)))
      else Inr (occupied, True))"
  by pat_completeness auto
termination
  by (relation "measure (\<lambda>(cols, occupied, w, h, r, c, dr). nat (h - dr))") auto

declare fitsRows.simps [simp del]

text \<open>
  The loop over the columns of one row: \<^verbatim>\<open>for (let c = 0; c <= cols - w; c++)\<close>. It returns
  the column of the first rectangle that fits, or None when the row has none.
\<close>

function scanRow :: "int \<Rightarrow> grid \<Rightarrow> int \<Rightarrow> int \<Rightarrow> int \<Rightarrow> int \<Rightarrow> error + grid \<times> int option" where
  "scanRow cols occupied w h r c =
     (if c \<le> cols - w
      then (case fitsRows cols occupied w h r c 0 of
              Inl e \<Rightarrow> Inl e
            | Inr (occ1, fits) \<Rightarrow>
                if fits then Inr (occ1, Some c) else scanRow cols occ1 w h r (c + 1))
      else Inr (occupied, None))"
  by pat_completeness auto
termination
  by (relation "measure (\<lambda>(cols, occupied, w, h, r, c). nat (cols - w + 1 - c))") auto

declare scanRow.simps [simp del]

text \<open>
  The loop over the rows, \<^verbatim>\<open>for (let r = 0; ; r++)\<close>, has no exit condition: it ends only by
  the \<^verbatim>\<open>return\<close>. None is the run that never returns; \<open>Some (Inl e)\<close> is a run that raises.
  The result is the grid as the search leaves it and \<^verbatim>\<open>{ col, row }\<close>.
\<close>

partial_function (option) findFreeFrom ::
  "int \<Rightarrow> grid \<Rightarrow> int \<Rightarrow> int \<Rightarrow> int \<Rightarrow> (error + grid \<times> int \<times> int) option" where
  "findFreeFrom cols occupied w h r =
     (case ensureRows cols occupied (r + h - 1) of
        Inl e \<Rightarrow> Some (Inl e)
      | Inr occ1 \<Rightarrow>
          (case scanRow cols occ1 w h r 0 of
             Inl e \<Rightarrow> Some (Inl e)
           | Inr res \<Rightarrow>
               (case snd res of
                  Some c \<Rightarrow> Some (Inr (fst res, c, r))
                | None \<Rightarrow> findFreeFrom cols (fst res) w h (r + 1))))"

declare findFreeFrom.simps [code]

definition findFree :: "int \<Rightarrow> grid \<Rightarrow> int \<Rightarrow> int \<Rightarrow> (error + grid \<times> int \<times> int) option" where
  "findFree cols occupied w h = findFreeFrom cols occupied w h 0"

section \<open>packItems\<close>

text \<open>
  \<^verbatim>\<open>getItemWidth\<close> and \<^verbatim>\<open>getItemHeight\<close> are imported from the module \<^verbatim>\<open>./InventorySlot\<close>;
  the packer only calls them, once per slot, and the model takes them as its first two
  parameters.

  One iteration of \<^verbatim>\<open>for (const slot of slots)\<close>, on the state \<open>(occupied, placements)\<close>. The
  test \<^verbatim>\<open>fixedCol !== undefined && fixedRow !== undefined\<close> is the pair of \<open>Some\<close> patterns.
\<close>

definition packStep ::
  "(Slot \<Rightarrow> int) \<Rightarrow> (Slot \<Rightarrow> int) \<Rightarrow> int \<Rightarrow> grid \<times> Placement list \<Rightarrow> Slot
     \<Rightarrow> (error + grid \<times> Placement list) option" where
  "packStep getItemWidth getItemHeight cols st s =
     (case st of (occupied, ps) \<Rightarrow>
        let w = getItemWidth s; h = getItemHeight s in
        (case (gridX s, gridY s) of
           (Some fixedCol, Some fixedRow) \<Rightarrow>
             (case markOccupied cols occupied fixedCol fixedRow w h of
                Inl e \<Rightarrow> Some (Inl e)
              | Inr occ1 \<Rightarrow>
                  Some (Inr (occ1,
                    ps @ [\<lparr>pslot = slot s, pcol = fixedCol, prow = fixedRow, pw = w, ph = h\<rparr>])))
         | _ \<Rightarrow>
             (case findFree cols occupied w h of
                None \<Rightarrow> None
              | Some (Inl e) \<Rightarrow> Some (Inl e)
              | Some (Inr (occ1, c, r)) \<Rightarrow>
                  (case markOccupied cols occ1 c r w h of
                     Inl e \<Rightarrow> Some (Inl e)
                   | Inr occ2 \<Rightarrow>
                       Some (Inr (occ2,
                         ps @ [\<lparr>pslot = slot s, pcol = c, prow = r, pw = w, ph = h\<rparr>]))))))"

text \<open>The loop over the slots, in input order; it stops at the first run that raises or hangs.\<close>

fun packLoop ::
  "(Slot \<Rightarrow> int) \<Rightarrow> (Slot \<Rightarrow> int) \<Rightarrow> int \<Rightarrow> grid \<times> Placement list \<Rightarrow> Slot list
     \<Rightarrow> (error + grid \<times> Placement list) option" where
  "packLoop getItemWidth getItemHeight cols st [] = Some (Inr st)"
| "packLoop getItemWidth getItemHeight cols st (s # ss) =
     (case packStep getItemWidth getItemHeight cols st s of
        None \<Rightarrow> None
      | Some (Inl e) \<Rightarrow> Some (Inl e)
      | Some (Inr st') \<Rightarrow> packLoop getItemWidth getItemHeight cols st' ss)"

text \<open>
  \<^verbatim>\<open>placements.reduce((m, p) => Math.max(m, p.row + p.h), 0)\<close> is the left fold, and
  \<^verbatim>\<open>rows: Math.max(maxRow, 4)\<close>.
\<close>

definition packItems ::
  "(Slot \<Rightarrow> int) \<Rightarrow> (Slot \<Rightarrow> int) \<Rightarrow> Slot list \<Rightarrow> int \<Rightarrow> (error + PackResult) option" where
  "packItems getItemWidth getItemHeight slots cols =
     (case packLoop getItemWidth getItemHeight cols ([], []) slots of
        None \<Rightarrow> None
      | Some (Inl e) \<Rightarrow> Some (Inl e)
      | Some (Inr (occupied, ps)) \<Rightarrow>
          (let maxRow = foldl (\<lambda>m p. max m (prow p + ph p)) 0 ps
           in Some (Inr \<lparr>placements = ps, rows = max maxRow 4\<rparr>)))"

section \<open>The cell-to-slot projections\<close>

text \<open>
  \<^verbatim>\<open>placementMap\<close> is a \<^verbatim>\<open>Map\<close> keyed by the string \<^verbatim>\<open>`${c},${r}`\<close>. The decimal form of an
  integer determines it, so the key is modelled as the pair \<open>(c, r)\<close>.

  The two loops that mark every cell a placement covers:
  \<^verbatim>\<open>for (let c = p.col; c < p.col + p.w; c++) map.set(`${c},${r}`, { placement: p, slot })\<close>
\<close>

type_synonym cellMap = "int \<times> int \<Rightarrow> (Placement \<times> Slot) option"

function setCols :: "cellMap \<Rightarrow> Placement \<times> Slot \<Rightarrow> int \<Rightarrow> int \<Rightarrow> int \<Rightarrow> cellMap" where
  "setCols m v r c cend =
     (if c < cend then setCols (m((c, r) \<mapsto> v)) v r (c + 1) cend else m)"
  by pat_completeness auto
termination
  by (relation "measure (\<lambda>(m, v, r, c, cend). nat (cend - c))") auto

declare setCols.simps [simp del]

function setRows :: "cellMap \<Rightarrow> Placement \<times> Slot \<Rightarrow> int \<Rightarrow> int \<Rightarrow> cellMap" where
  "setRows m v r rend =
     (if r < rend
      then setRows (setCols m v r (pcol (fst v)) (pcol (fst v) + pw (fst v))) v (r + 1) rend
      else m)"
  by pat_completeness auto
termination
  by (relation "measure (\<lambda>(m, v, r, rend). nat (rend - r))") auto

declare setRows.simps [simp del]

text \<open>
  \<^verbatim>\<open>for (const p of placements)\<close>, with \<^verbatim>\<open>slotsToRender.find((s) => s.slot === p.slot)\<close> and
  \<^verbatim>\<open>if (!slot) continue\<close>.
\<close>

fun placementMapFrom :: "cellMap \<Rightarrow> Slot list \<Rightarrow> Placement list \<Rightarrow> cellMap" where
  "placementMapFrom m slotsToRender [] = m"
| "placementMapFrom m slotsToRender (p # ps) =
     (case find (\<lambda>s. slot s = pslot p) slotsToRender of
        None \<Rightarrow> placementMapFrom m slotsToRender ps
      | Some s \<Rightarrow>
          placementMapFrom (setRows m (p, s) (prow p) (prow p + ph p)) slotsToRender ps)"

definition placementMap :: "Slot list \<Rightarrow> Placement list \<Rightarrow> cellMap" where
  "placementMap slotsToRender ps = placementMapFrom Map.empty slotsToRender ps"

text \<open>
  \<^verbatim>\<open>emptyCellSlots\<close>. An entry \<^verbatim>\<open>{ col, row, slot }\<close> of the result is the triple
  \<open>(col, row, slot)\<close>; the state of the loops is \<open>(emptyIdx, result)\<close>.
  \<^verbatim>\<open>emptySlots[emptyIdx]\<close> is \<^verbatim>\<open>undefined\<close> exactly when \<open>emptyIdx\<close> is no index of the array,
  whose elements are slot objects.
\<close>

function emptyCols ::
  "cellMap \<Rightarrow> Slot list \<Rightarrow> int \<Rightarrow> int \<Rightarrow> nat \<times> (int \<times> int \<times> Slot) list
     \<Rightarrow> nat \<times> (int \<times> int \<times> Slot) list" where
  "emptyCols m emptySlots r c st =
     (if c < GRID_COLS
      then emptyCols m emptySlots r (c + 1)
             (case st of (emptyIdx, result) \<Rightarrow>
                if m (c, r) = None
                then (if emptyIdx < length emptySlots
                      then (emptyIdx + 1, result @ [(c, r, emptySlots ! emptyIdx)])
                      else (emptyIdx, result))
                else (emptyIdx, result))
      else st)"
  by pat_completeness auto
termination
  by (relation "measure (\<lambda>(m, emptySlots, r, c, st). nat (GRID_COLS - c))") auto

declare emptyCols.simps [simp del]

function emptyRows ::
  "cellMap \<Rightarrow> Slot list \<Rightarrow> int \<Rightarrow> int \<Rightarrow> nat \<times> (int \<times> int \<times> Slot) list
     \<Rightarrow> nat \<times> (int \<times> int \<times> Slot) list" where
  "emptyRows m emptySlots nrows r st =
     (if r < nrows
      then emptyRows m emptySlots nrows (r + 1) (emptyCols m emptySlots r 0 st)
      else st)"
  by pat_completeness auto
termination
  by (relation "measure (\<lambda>(m, emptySlots, nrows, r, st). nat (nrows - r))") auto

declare emptyRows.simps [simp del]

definition emptyCellSlots :: "Slot list \<Rightarrow> cellMap \<Rightarrow> int \<Rightarrow> (int \<times> int \<times> Slot) list" where
  "emptyCellSlots slotsToRender m nrows =
     (let emptySlots = filter (\<lambda>s. name s = None) slotsToRender
      in snd (emptyRows m emptySlots nrows 0 (0, [])))"

section \<open>Vocabulary of the specification\<close>

text \<open>
  A cell \<open>(c, r)\<close> counts as occupied when the test \<^verbatim>\<open>occupied[r][c]\<close> of \<^verbatim>\<open>findFree\<close> would
  succeed on it: the row exists, the cell exists in it and holds true. Rows that were not
  created yet and cells beyond the end of a row are unoccupied.
\<close>

definition cellOcc :: "grid \<Rightarrow> int \<Rightarrow> int \<Rightarrow> bool" where
  "cellOcc occupied c r \<longleftrightarrow>
     0 \<le> r \<and> r < int (length occupied) \<and> 0 \<le> c \<and>
     nat c < length (occupied ! nat r) \<and> occupied ! nat r ! nat c"

text \<open>
  All cells of the \<open>w \<times> h\<close> rectangle whose top-left cell is \<open>(c, r)\<close> are unoccupied.
\<close>

definition rectFree :: "grid \<Rightarrow> int \<Rightarrow> int \<Rightarrow> int \<Rightarrow> int \<Rightarrow> bool" where
  "rectFree occupied w h c r \<longleftrightarrow>
     (\<forall>dr\<in>{0..<h}. \<forall>dc\<in>{0..<w}. \<not> cellOcc occupied (c + dc) (r + dr))"

text \<open>
  The specification's first free rectangle in row-major scan order: \<open>(r, c)\<close> is the
  lexicographically least pair with \<open>0 \<le> r\<close> and \<open>0 \<le> c \<le> cols - w\<close> whose rectangle is
  free.
\<close>

definition firstFit :: "int \<Rightarrow> grid \<Rightarrow> int \<Rightarrow> int \<Rightarrow> int \<Rightarrow> int \<Rightarrow> bool" where
  "firstFit cols occupied w h c r \<longleftrightarrow>
     0 \<le> r \<and> 0 \<le> c \<and> c \<le> cols - w \<and> rectFree occupied w h c r \<and>
     (\<forall>r'\<in>{0..r}. \<forall>c'\<in>{0..cols - w}.
        r' < r \<or> (r' = r \<and> c' < c) \<longrightarrow> \<not> rectFree occupied w h c' r')"

text \<open>
  The cells of a placement are the rectangle \<open>[col, col + w) \<times> [row, row + h)\<close>. Two
  placements overlap when the two half-open intervals meet in both directions, that is
  (lemma \<open>overlap_iff_covers\<close>) when they share a cell.
\<close>

definition covers :: "Placement \<Rightarrow> int \<Rightarrow> int \<Rightarrow> bool" where
  "covers p c r \<longleftrightarrow> pcol p \<le> c \<and> c < pcol p + pw p \<and> prow p \<le> r \<and> r < prow p + ph p"

definition overlap :: "Placement \<Rightarrow> Placement \<Rightarrow> bool" where
  "overlap p q \<longleftrightarrow>
     max (pcol p) (pcol q) < min (pcol p + pw p) (pcol q + pw q) \<and>
     max (prow p) (prow q) < min (prow p + ph p) (prow q + ph q)"

text \<open>
  The fixed position the packer honours: the pair of both coordinates, and nothing when
  either of them is undefined.
\<close>

definition fixedPosition :: "Slot \<Rightarrow> (int \<times> int) option" where
  "fixedPosition s =
     (case gridX s of
        None \<Rightarrow> None
      | Some x \<Rightarrow> (case gridY s of None \<Rightarrow> None | Some y \<Rightarrow> Some (x, y)))"

text \<open>
  The specification's \<open>max over placements of row + h\<close>, taken as 0 when there is no
  placement.
\<close>

definition maxExtent :: "Placement list \<Rightarrow> int" where
  "maxExtent ps = (if ps = [] then 0 else Max ((\<lambda>p. prow p + ph p) ` set ps))"

text \<open>
  The cells of the \<open>rows \<times> GRID_COLS\<close> grid in row-major scan order, and the cells some
  placement covers.
\<close>

definition gridCells :: "int \<Rightarrow> (int \<times> int) list" where
  "gridCells nrows = concat (map (\<lambda>r. map (\<lambda>c. (c, r)) [0..GRID_COLS - 1]) [0..nrows - 1])"

definition covered :: "Placement list \<Rightarrow> int \<times> int \<Rightarrow> bool" where
  "covered ps cell \<longleftrightarrow> (\<exists>p\<in>set ps. covers p (fst cell) (snd cell))"

subsection \<open>Invariants of the loops\<close>

text \<open>
  What a search that starts at row \<open>r\<close> and returns \<open>(occ', c1, r1)\<close> has established: the
  rectangle at \<open>(c1, r1)\<close> is free, no rectangle of an earlier row from \<open>r\<close> on nor of an
  earlier column of row \<open>r1\<close> is, and the grid was only extended by unoccupied rows.
\<close>

definition searchPost ::
  "int \<Rightarrow> grid \<Rightarrow> int \<Rightarrow> int \<Rightarrow> int \<Rightarrow> error + grid \<times> int \<times> int \<Rightarrow> bool" where
  "searchPost cols occ w h r y \<longleftrightarrow>
     (\<forall>occ' c1 r1. y = Inr (occ', c1, r1) \<longrightarrow> 0 \<le> r \<longrightarrow>
        r \<le> r1 \<and> 0 \<le> c1 \<and> c1 \<le> cols - w \<and> rectFree occ w h c1 r1 \<and>
        (\<forall>r'\<in>{r..<r1}. \<forall>c'\<in>{0..cols - w}. \<not> rectFree occ w h c' r') \<and>
        (\<forall>c'\<in>{0..<c1}. \<not> rectFree occ w h c' r1) \<and>
        length occ \<le> length occ' \<and> (\<forall>c r. cellOcc occ' c r \<longleftrightarrow> cellOcc occ c r))"

text \<open>
  Every cell of a recorded placement with a column \<open>c \<ge> 0\<close> is occupied in the grid.
\<close>

definition marked :: "grid \<Rightarrow> Placement list \<Rightarrow> bool" where
  "marked occ ps \<longleftrightarrow> (\<forall>p\<in>set ps. \<forall>c r. 0 \<le> c \<and> covers p c r \<longrightarrow> cellOcc occ c r)"

text \<open>
  After \<open>n\<close> slots of size \<open>1 \<times> 1\<close> the occupied cells are the first \<open>n\<close> cells in row-major
  order, and the placements are those of \<open>rowMajor\<close>.
\<close>

definition filled :: "int \<Rightarrow> grid \<Rightarrow> nat \<Rightarrow> bool" where
  "filled cols occ n \<longleftrightarrow>
     (\<forall>c r. cellOcc occ c r \<longleftrightarrow> 0 \<le> c \<and> c < cols \<and> 0 \<le> r \<and> r * cols + c < int n)"

definition rowMajor :: "int \<Rightarrow> Slot list \<Rightarrow> Placement list" where
  "rowMajor cols slots =
     map (\<lambda>i. \<lparr>pslot = slot (slots ! i), pcol = int i mod cols, prow = int i div cols,
               pw = 1, ph = 1\<rparr>) [0..<length slots]"

text \<open>
  The body of the two loops of \<^verbatim>\<open>emptyCellSlots\<close> as a function of the visited cell, on the
  state \<open>(emptyIdx, result)\<close>.
\<close>

definition assignCell ::
  "cellMap \<Rightarrow> Slot list \<Rightarrow> int \<times> int \<Rightarrow> nat \<times> (int \<times> int \<times> Slot) list
     \<Rightarrow> nat \<times> (int \<times> int \<times> Slot) list" where
  "assignCell m emptySlots cell st =
     (case st of (emptyIdx, result) \<Rightarrow>
        if m cell = None
        then (if emptyIdx < length emptySlots
              then (emptyIdx + 1, result @ [(fst cell, snd cell, emptySlots ! emptyIdx)])
              else (emptyIdx, result))
        else (emptyIdx, result))"

subsection \<open>Inputs of the examples\<close>

text \<open>
  The slots and footprints the witnesses and counterexamples run the packer on. A footprint
  function stands for \<^verbatim>\<open>getItemWidth\<close> or \<^verbatim>\<open>getItemHeight\<close>; \<open>unitFootprint\<close> is the
  default \<open>1 \<times> 1\<close>. \<open>item\<close> holds an item and has no position, \<open>itemAt\<close> carries both
  coordinates, \<open>itemAtX\<close> only \<^verbatim>\<open>gridX\<close>; \<open>emptySlot\<close> and \<open>emptySlotAt\<close> hold no item.
  \<open>scenarioSize\<close> makes slot 3 a \<open>2 \<times> 2\<close> item; \<open>shelfSlots\<close> with \<open>shelfWidth\<close> and
  \<open>shelfHeight\<close> is a \<open>10 \<times> 3\<close> item, a \<open>2 \<times> 1\<close> item and two empty slots.
\<close>

definition unitFootprint :: "Slot \<Rightarrow> int" where
  "unitFootprint s = 1"

definition item :: "int \<Rightarrow> Slot" where
  "item i = \<lparr>slot = i, name = Some ''item'', gridX = None, gridY = None\<rparr>"

definition itemAt :: "int \<Rightarrow> int \<Rightarrow> int \<Rightarrow> Slot" where
  "itemAt i x y = \<lparr>slot = i, name = Some ''item'', gridX = Some x, gridY = Some y\<rparr>"

definition itemAtX :: "int \<Rightarrow> int \<Rightarrow> Slot" where
  "itemAtX i x = \<lparr>slot = i, name = Some ''item'', gridX = Some x, gridY = None\<rparr>"

definition emptySlot :: "int \<Rightarrow> Slot" where
  "emptySlot i = \<lparr>slot = i, name = None, gridX = None, gridY = None\<rparr>"

definition emptySlotAt :: "int \<Rightarrow> int \<Rightarrow> int \<Rightarrow> Slot" where
  "emptySlotAt i x y = \<lparr>slot = i, name = None, gridX = Some x, gridY = Some y\<rparr>"

definition scenarioSize :: "Slot \<Rightarrow> int" where
  "scenarioSize s = (if slot s = 3 then 2 else 1)"

definition shelfWidth :: "Slot \<Rightarrow> int" where
  "shelfWidth s = (if slot s = 1 then 10 else if slot s = 2 then 2 else 1)"

definition shelfHeight :: "Slot \<Rightarrow> int" where
  "shelfHeight s = (if slot s = 1 then 3 else 1)"

definition shelfSlots :: "Slot list" where
  "shelfSlots = [itemAt 1 0 0, itemAt 2 0 3, emptySlot 3, emptySlot 4]"

section \<open>The occupancy grid: what the loops do to the cells\<close>

lemma readCell_cellOcc:
  "0 \<le> r \<Longrightarrow> r < int (length occ) \<Longrightarrow> readCell occ r c = Inr (cellOcc occ c r)"
  by (simp add: readCell_def cellOcc_def)

lemma setCell_read:
  assumes "0 \<le> c'"
  shows "(nat c' < length (setCell xs c) \<and> setCell xs c ! nat c') \<longleftrightarrow>
         (nat c' < length xs \<and> xs ! nat c') \<or> (c' = c)"
proof (cases "c < 0")
  case True
  with assms show ?thesis by (auto simp: setCell_def)
next
  case False
  note nonneg = this
  show ?thesis
  proof (cases "nat c < length xs")
    case True
    with nonneg assms show ?thesis
      by (auto simp: setCell_def nth_list_update)
  next
    case False
    with nonneg assms show ?thesis
      by (auto simp: setCell_def nth_append nth_Cons')
  qed
qed

lemma cellOcc_update:
  assumes "0 \<le> r" "r < int (length occ)"
  shows "cellOcc (occ[nat r := setCell (occ ! nat r) c]) c' r' \<longleftrightarrow>
         cellOcc occ c' r' \<or> (r' = r \<and> c' = c \<and> 0 \<le> c)"
proof (cases "r' = r")
  case True
  with assms setCell_read [of c' "occ ! nat r" c] show ?thesis
    by (auto simp: cellOcc_def)
next
  case False
  with assms show ?thesis
    by (auto simp: cellOcc_def nth_list_update)
qed

lemma cellOcc_fresh_rows:
  "cellOcc (occ @ replicate n (replicate k False)) c r \<longleftrightarrow> cellOcc occ c r"
  by (auto simp: cellOcc_def nth_append)

lemma ensureRows_noop: "m < int (length occ) \<Longrightarrow> ensureRows cols occ m = Inr occ"
  by (simp add: ensureRows.simps)

lemma ensureRows_Inr:
  "ensureRows cols occ m = Inr occ' \<Longrightarrow>
   occ' = occ @ replicate (nat (m + 1 - int (length occ))) (replicate (nat cols) False)"
proof (induction cols occ m rule: ensureRows.induct)
  case (1 cols occ m)
  show ?case
  proof (cases "int (length occ) \<le> m")
    case True
    with "1.prems" have nonneg: "\<not> cols < 0"
      by (auto simp: ensureRows.simps [of cols occ m] split: if_splits)
    with True "1.prems" have "ensureRows cols (occ @ [replicate (nat cols) False]) m = Inr occ'"
      by (simp add: ensureRows.simps [of cols occ m])
    from "1.IH" [OF True nonneg this]
    have "occ' = occ @ replicate (Suc (nat (m - int (length occ)))) (replicate (nat cols) False)"
      by (simp add: replicate_app_Cons_same)
    moreover from True have "Suc (nat (m - int (length occ))) = nat (m + 1 - int (length occ))"
      by simp
    ultimately show ?thesis by simp
  next
    case False
    with "1.prems" show ?thesis
      by (simp add: ensureRows.simps [of cols occ m])
  qed
qed

lemma ensureRows_ok: "0 \<le> cols \<Longrightarrow> \<exists>occ'. ensureRows cols occ m = Inr occ'"
proof (induction cols occ m rule: ensureRows.induct)
  case (1 cols occ m)
  then show ?case
    by (cases "int (length occ) \<le> m") (simp_all add: ensureRows.simps [of cols occ m])
qed

lemma ensureRows_cellOcc:
  "ensureRows cols occ m = Inr occ' \<Longrightarrow> cellOcc occ' c r \<longleftrightarrow> cellOcc occ c r"
  by (drule ensureRows_Inr) (simp add: cellOcc_fresh_rows)

lemma ensureRows_length:
  "ensureRows cols occ m = Inr occ' \<Longrightarrow> int (length occ') = max (int (length occ)) (m + 1)"
  by (drule ensureRows_Inr) auto

lemma markCells_Inr:
  "markCells occ r c cend = Inr occ' \<Longrightarrow>
   length occ' = length occ \<and>
   (\<forall>c' r'. cellOcc occ' c' r' \<longleftrightarrow>
      cellOcc occ c' r' \<or> (r' = r \<and> 0 \<le> c' \<and> c \<le> c' \<and> c' < cend))"
proof (induction occ r c cend rule: markCells.induct)
  case (1 occ r c cend)
  show ?case
  proof (cases "c < cend")
    case True
    with "1.prems" have inside: "\<not> (r < 0 \<or> int (length occ) \<le> r)"
      by (auto simp: markCells.simps [of occ r c cend] split: if_splits)
    with True "1.prems"
    have "markCells (occ[nat r := setCell (occ ! nat r) c]) r (c + 1) cend = Inr occ'"
      by (simp add: markCells.simps [of occ r c cend])
    from "1.IH" [OF True inside this] inside True show ?thesis
      by (auto simp: cellOcc_update)
  next
    case False
    with "1.prems" show ?thesis
      by (auto simp: markCells.simps [of occ r c cend])
  qed
qed

lemma markCells_ok:
  "(0 \<le> r \<and> r < int (length occ)) \<or> cend \<le> c \<Longrightarrow> \<exists>occ'. markCells occ r c cend = Inr occ'"
proof (induction occ r c cend rule: markCells.induct)
  case (1 occ r c cend)
  then show ?case
    by (cases "c < cend") (auto simp: markCells.simps [of occ r c cend])
qed

lemma markRows_Inr:
  "markRows cols occ col w r rend = Inr occ' \<Longrightarrow>
   length occ \<le> length occ' \<and>
   (\<forall>c' r'. cellOcc occ' c' r' \<longleftrightarrow>
      cellOcc occ c' r' \<or> (0 \<le> c' \<and> col \<le> c' \<and> c' < col + w \<and> r \<le> r' \<and> r' < rend))"
proof (induction cols occ col w r rend rule: markRows.induct)
  case (1 cols occ col w r rend)
  show ?case
  proof (cases "r < rend")
    case True
    with "1.prems" obtain occ1 occ2 where
      e: "ensureRows cols occ r = Inr occ1" and
      m: "markCells occ1 r col (col + w) = Inr occ2" and
      rest: "markRows cols occ2 col w (r + 1) rend = Inr occ'"
      by (auto simp: markRows.simps [of cols occ col w r rend] split: sum.splits)
    from "1.IH" [OF True e m rest] markCells_Inr [OF m] ensureRows_cellOcc [OF e]
      ensureRows_length [OF e] True
    show ?thesis by auto
  next
    case False
    with "1.prems" show ?thesis
      by (auto simp: markRows.simps [of cols occ col w r rend])
  qed
qed

lemma markRows_ok:
  "0 \<le> cols \<Longrightarrow> 0 \<le> r \<or> w \<le> 0 \<or> rend \<le> r \<Longrightarrow>
   \<exists>occ'. markRows cols occ col w r rend = Inr occ'"
proof (induction cols occ col w r rend rule: markRows.induct)
  case (1 cols occ col w r rend)
  show ?case
  proof (cases "r < rend")
    case True
    from ensureRows_ok [OF "1.prems"(1)] obtain occ1 where
      e: "ensureRows cols occ r = Inr occ1" by blast
    from "1.prems"(2) True ensureRows_length [OF e]
    have "(0 \<le> r \<and> r < int (length occ1)) \<or> col + w \<le> col" by auto
    from markCells_ok [OF this] obtain occ2 where
      m: "markCells occ1 r col (col + w) = Inr occ2" by blast
    from "1.prems"(2) True have "0 \<le> r + 1 \<or> w \<le> 0 \<or> rend \<le> r + 1" by auto
    from "1.IH" [OF True e m "1.prems"(1) this] e m True show ?thesis
      by (simp add: markRows.simps [of cols occ col w r rend])
  next
    case False
    then show ?thesis
      by (simp add: markRows.simps [of cols occ col w r rend])
  qed
qed

lemma markOccupied_Inr:
  assumes "markOccupied cols occ col row w h = Inr occ'"
  shows "length occ \<le> length occ'"
    and "cellOcc occ' c r \<longleftrightarrow>
           cellOcc occ c r \<or> (0 \<le> c \<and> col \<le> c \<and> c < col + w \<and> row \<le> r \<and> r < row + h)"
  using markRows_Inr [OF assms [unfolded markOccupied_def]] by simp_all

lemma markOccupied_ok:
  "0 \<le> cols \<Longrightarrow> 0 \<le> row \<or> w \<le> 0 \<or> h \<le> 0 \<Longrightarrow>
   \<exists>occ'. markOccupied cols occ col row w h = Inr occ'"
  unfolding markOccupied_def by (rule markRows_ok) auto

section \<open>The search returns the first fit\<close>

lemma fitsCells_eq:
  "0 \<le> rr \<Longrightarrow> rr < int (length occ) \<Longrightarrow>
   fitsCells occ w rr c dc = Inr (\<forall>dc'\<in>{dc..<w}. \<not> cellOcc occ (c + dc') rr)"
proof (induction occ w rr c dc rule: fitsCells.induct)
  case (1 occ w rr c dc)
  show ?case
  proof (cases "dc < w")
    case True
    note rd = readCell_cellOcc [OF "1.prems", of "c + dc"]
    show ?thesis
    proof (cases "cellOcc occ (c + dc) rr")
      case True
      with \<open>dc < w\<close> rd show ?thesis
        by (auto simp: fitsCells.simps [of occ w rr c dc])
    next
      case False
      from "1.IH" [OF \<open>dc < w\<close> rd False "1.prems"]
      have "fitsCells occ w rr c (dc + 1) = Inr (\<forall>dc'\<in>{dc + 1..<w}. \<not> cellOcc occ (c + dc') rr)" .
      moreover have "(\<forall>dc'\<in>{dc + 1..<w}. \<not> cellOcc occ (c + dc') rr) \<longleftrightarrow>
                     (\<forall>dc'\<in>{dc..<w}. \<not> cellOcc occ (c + dc') rr)"
      proof -
        have "{dc..<w} = insert dc {dc + 1..<w}" using \<open>dc < w\<close> by auto
        with False show ?thesis by simp
      qed
      ultimately show ?thesis using \<open>dc < w\<close> rd False
        by (simp add: fitsCells.simps [of occ w rr c dc])
    qed
  next
    case False
    then show ?thesis
      by (simp add: fitsCells.simps [of occ w rr c dc])
  qed
qed

lemma fitsRows_eq:
  "0 \<le> r \<Longrightarrow> 0 \<le> dr \<Longrightarrow> r + h - 1 < int (length occ) \<Longrightarrow>
   fitsRows cols occ w h r c dr =
     Inr (occ, \<forall>dr'\<in>{dr..<h}. \<forall>dc\<in>{0..<w}. \<not> cellOcc occ (c + dc) (r + dr'))"
proof (induction cols occ w h r c dr rule: fitsRows.induct)
  case (1 cols occ w h r c dr)
  show ?case
  proof (cases "dr < h")
    case True
    with "1.prems" have inside: "0 \<le> r + dr" "r + dr < int (length occ)" by auto
    have e: "ensureRows cols occ (r + dr) = Inr occ"
      by (rule ensureRows_noop) (rule inside)
    note f = fitsCells_eq [OF inside, of w c 0]
    have split: "{dr..<h} = insert dr {dr + 1..<h}" using True by auto
    show ?thesis
    proof (cases "\<forall>dc\<in>{0..<w}. \<not> cellOcc occ (c + dc) (r + dr)")
      case True
      from "1.prems" have "0 \<le> dr + 1" by simp
      from "1.IH" [OF \<open>dr < h\<close> e f True "1.prems"(1) this "1.prems"(3)] e f True \<open>dr < h\<close> split
      show ?thesis
        by (simp add: fitsRows.simps [of cols occ w h r c dr])
    next
      case False
      with e f \<open>dr < h\<close> split show ?thesis
        by (auto simp: fitsRows.simps [of cols occ w h r c dr])
    qed
  next
    case False
    then show ?thesis
      by (simp add: fitsRows.simps [of cols occ w h r c dr])
  qed
qed

lemma fitsRows_rectFree:
  "0 \<le> r \<Longrightarrow> r + h - 1 < int (length occ) \<Longrightarrow>
   fitsRows cols occ w h r c 0 = Inr (occ, rectFree occ w h c r)"
  by (simp add: fitsRows_eq rectFree_def)

lemma rectFree_cong:
  "(\<And>c r. cellOcc occ' c r \<longleftrightarrow> cellOcc occ c r) \<Longrightarrow> rectFree occ' w h c r \<longleftrightarrow> rectFree occ w h c r"
  by (simp add: rectFree_def)

lemma rectFree_above:
  assumes "\<And>c r'. cellOcc occ c r' \<Longrightarrow> r' < n" and "n \<le> r"
  shows "rectFree occ w h c r"
  unfolding rectFree_def
proof (intro ballI)
  fix dr dc assume "dr \<in> {0..<h}" "dc \<in> {0..<w}"
  show "\<not> cellOcc occ (c + dc) (r + dr)"
  proof
    assume "cellOcc occ (c + dc) (r + dr)"
    from assms(1) [OF this] assms(2) \<open>dr \<in> {0..<h}\<close> show False by simp
  qed
qed

lemma rectFree_unit: "rectFree occ 1 1 c r \<longleftrightarrow> \<not> cellOcc occ c r"
proof -
  have "{0..<1::int} = {0}" by auto
  then show ?thesis by (simp add: rectFree_def)
qed

lemma rectFree_covers:
  assumes "rectFree occ (pw p) (ph p) (pcol p) (prow p)" and "covers p c r"
  shows "\<not> cellOcc occ c r"
proof -
  from assms(2) have "r - prow p \<in> {0..<ph p}" "c - pcol p \<in> {0..<pw p}"
    by (auto simp: covers_def)
  with assms(1) have "\<not> cellOcc occ (pcol p + (c - pcol p)) (prow p + (r - prow p))"
    unfolding rectFree_def by blast
  then show ?thesis by simp
qed

lemma scanRow_spec:
  "0 \<le> r \<Longrightarrow> r + h - 1 < int (length occ) \<Longrightarrow>
   \<exists>found. scanRow cols occ w h r c = Inr (occ, found) \<and>
     (case found of
        None \<Rightarrow> \<forall>c'\<in>{c..cols - w}. \<not> rectFree occ w h c' r
      | Some c1 \<Rightarrow> c \<le> c1 \<and> c1 \<le> cols - w \<and> rectFree occ w h c1 r \<and>
          (\<forall>c'\<in>{c..<c1}. \<not> rectFree occ w h c' r))"
proof (induction cols occ w h r c rule: scanRow.induct)
  case (1 cols occ w h r c)
  note f = fitsRows_rectFree [OF "1.prems", of cols w c]
  show ?case
  proof (cases "c \<le> cols - w")
    case True
    note inrange = this
    show ?thesis
    proof (cases "rectFree occ w h c r")
      case True
      with inrange f show ?thesis
        by (simp add: scanRow.simps [of cols occ w h r c])
    next
      case False
      from "1.IH" [OF inrange f refl False "1.prems"] obtain found where
        s: "scanRow cols occ w h r (c + 1) = Inr (occ, found)" and
        p: "case found of
              None \<Rightarrow> \<forall>c'\<in>{c + 1..cols - w}. \<not> rectFree occ w h c' r
            | Some c1 \<Rightarrow> c + 1 \<le> c1 \<and> c1 \<le> cols - w \<and> rectFree occ w h c1 r \<and>
                (\<forall>c'\<in>{c + 1..<c1}. \<not> rectFree occ w h c' r)"
        by blast
      have here: "scanRow cols occ w h r c = Inr (occ, found)"
        using inrange f False s by (simp add: scanRow.simps [of cols occ w h r c])
      have "case found of
              None \<Rightarrow> \<forall>c'\<in>{c..cols - w}. \<not> rectFree occ w h c' r
            | Some c1 \<Rightarrow> c \<le> c1 \<and> c1 \<le> cols - w \<and> rectFree occ w h c1 r \<and>
                (\<forall>c'\<in>{c..<c1}. \<not> rectFree occ w h c' r)"
      proof (cases found)
        case None
        have "{c..cols - w} = insert c {c + 1..cols - w}" using inrange by auto
        with None p False show ?thesis by simp
      next
        case (Some c1)
        with p have "c + 1 \<le> c1" by simp
        then have "{c..<c1} = insert c {c + 1..<c1}" by auto
        with Some p False show ?thesis by simp
      qed
      with here show ?thesis by blast
    qed
  next
    case False
    then show ?thesis
      by (simp add: scanRow.simps [of cols occ w h r c])
  qed
qed

text \<open>
  Partial correctness of the unbounded loop, by the fixed-point induction of
  \<open>findFreeFrom\<close>: whatever a run returns satisfies \<open>searchPost\<close>.
\<close>

lemma findFreeFrom_sound:
  assumes "findFreeFrom cols occ w h r = Some y"
  shows "searchPost cols occ w h r y"
proof (rule findFreeFrom.raw_induct [OF _ assms], goal_cases)
  case (1 search cols occ w h r y)
  note IH = 1(1) and step = 1(2)
  show ?case
    unfolding searchPost_def
  proof (intro allI impI)
    fix occ' c1 r1
    assume y: "y = Inr (occ', c1, r1)" and r: "0 \<le> r"
    from step y obtain occ1 where e: "ensureRows cols occ (r + h - 1) = Inr occ1"
      by (auto split: sum.splits)
    have same: "\<And>c r. cellOcc occ1 c r \<longleftrightarrow> cellOcc occ c r"
      by (rule ensureRows_cellOcc [OF e])
    have free: "\<And>c r. rectFree occ1 w h c r \<longleftrightarrow> rectFree occ w h c r"
      by (rule rectFree_cong) (rule same)
    from ensureRows_length [OF e] have len: "r + h - 1 < int (length occ1)" "length occ \<le> length occ1"
      by auto
    from scanRow_spec [OF r len(1), of cols w 0] obtain found where
      s: "scanRow cols occ1 w h r 0 = Inr (occ1, found)" and
      p: "case found of
            None \<Rightarrow> \<forall>c'\<in>{0..cols - w}. \<not> rectFree occ1 w h c' r
          | Some c \<Rightarrow> 0 \<le> c \<and> c \<le> cols - w \<and> rectFree occ1 w h c r \<and>
              (\<forall>c'\<in>{0..<c}. \<not> rectFree occ1 w h c' r)"
      by blast
    show "r \<le> r1 \<and> 0 \<le> c1 \<and> c1 \<le> cols - w \<and> rectFree occ w h c1 r1 \<and>
          (\<forall>r'\<in>{r..<r1}. \<forall>c'\<in>{0..cols - w}. \<not> rectFree occ w h c' r') \<and>
          (\<forall>c'\<in>{0..<c1}. \<not> rectFree occ w h c' r1) \<and>
          length occ \<le> length occ' \<and> (\<forall>c r. cellOcc occ' c r \<longleftrightarrow> cellOcc occ c r)"
    proof (cases found)
      case (Some c)
      with step y e s have "occ' = occ1" "c1 = c" "r1 = r" by simp_all
      with Some p same free len show ?thesis by simp
    next
      case None
      with step y e s have "search cols occ1 w h (r + 1) = Some (Inr (occ', c1, r1))"
        by simp
      from IH [OF this] r
      have ih: "r + 1 \<le> r1" "0 \<le> c1" "c1 \<le> cols - w" "rectFree occ1 w h c1 r1"
        "\<forall>r'\<in>{r + 1..<r1}. \<forall>c'\<in>{0..cols - w}. \<not> rectFree occ1 w h c' r'"
        "\<forall>c'\<in>{0..<c1}. \<not> rectFree occ1 w h c' r1"
        "length occ1 \<le> length occ'" "\<forall>c r. cellOcc occ' c r \<longleftrightarrow> cellOcc occ1 c r"
        by (simp_all add: searchPost_def)
      have "{r..<r1} = insert r {r + 1..<r1}" using ih(1) by auto
      with ih None p same free len show ?thesis by simp
    qed
  qed
qed

text \<open>
  The loop ends when the footprint is not wider than the grid: no cell is occupied from
  row \<open>n\<close> on, so the scan of row \<open>n\<close> succeeds at column 0 at the latest.
\<close>

lemma findFreeFrom_total:
  assumes "0 \<le> cols" "w \<le> cols"
  shows "0 \<le> r \<Longrightarrow> (\<And>c r'. cellOcc occ c r' \<Longrightarrow> r' < n) \<Longrightarrow>
         \<exists>occ' c1 r1. findFreeFrom cols occ w h r = Some (Inr (occ', c1, r1))"
proof (induction "nat (n - r)" arbitrary: r occ rule: less_induct)
  case less
  from ensureRows_ok [OF assms(1)] obtain occ1 where
    e: "ensureRows cols occ (r + h - 1) = Inr occ1" by blast
  have same: "\<And>c r. cellOcc occ1 c r \<longleftrightarrow> cellOcc occ c r"
    by (rule ensureRows_cellOcc [OF e])
  from ensureRows_length [OF e] have len: "r + h - 1 < int (length occ1)" by auto
  from scanRow_spec [OF less.prems(1) len, of cols w 0] obtain found where
    s: "scanRow cols occ1 w h r 0 = Inr (occ1, found)" and
    p: "case found of
          None \<Rightarrow> \<forall>c'\<in>{0..cols - w}. \<not> rectFree occ1 w h c' r
        | Some c \<Rightarrow> 0 \<le> c \<and> c \<le> cols - w \<and> rectFree occ1 w h c r \<and>
            (\<forall>c'\<in>{0..<c}. \<not> rectFree occ1 w h c' r)"
    by blast
  show ?case
  proof (cases found)
    case (Some c)
    with e s show ?thesis
      by (simp add: findFreeFrom.simps [of cols occ w h r])
  next
    case None
    with p assms(2) have "\<not> rectFree occ1 w h 0 r" by simp
    with rectFree_above [of occ1 n r w h 0] same less.prems(2) have "r < n"
      by (metis not_le_imp_less)
    then have "nat (n - (r + 1)) < nat (n - r)" by simp
    moreover from less.prems(1) have "0 \<le> r + 1" by simp
    moreover have "\<And>c r'. cellOcc occ1 c r' \<Longrightarrow> r' < n"
      using same less.prems(2) by simp
    ultimately obtain occ' c1 r1 where
      "findFreeFrom cols occ1 w h (r + 1) = Some (Inr (occ', c1, r1))"
      using less.hyps by blast
    with e s None show ?thesis
      by (simp add: findFreeFrom.simps [of cols occ w h r])
  qed
qed

text \<open>
  A footprint wider than a grid of \<open>cols \<ge> 0\<close> columns: no column is scanned in any row, and
  the search never returns.
\<close>

lemma findFreeFrom_wide:
  assumes "findFreeFrom cols occ w h r = Some y"
  shows "\<not> (0 \<le> cols \<and> cols < w)"
proof (rule findFreeFrom.raw_induct [OF _ assms], goal_cases)
  case (1 search cols occ w h r y)
  note IH = 1(1) and step = 1(2)
  show ?case
  proof
    assume wide: "0 \<le> cols \<and> cols < w"
    with ensureRows_ok [of cols occ "r + h - 1"] obtain occ1 where
      e: "ensureRows cols occ (r + h - 1) = Inr occ1" by blast
    from wide have s: "scanRow cols occ1 w h r 0 = Inr (occ1, None)"
      by (simp add: scanRow.simps)
    from step e s have "search cols occ1 w h (r + 1) = Some y" by simp
    from IH [OF this] wide show False by simp
  qed
qed

lemma findFree_diverges: "0 \<le> cols \<Longrightarrow> cols < w \<Longrightarrow> findFree cols occ w h = None"
proof (cases "findFree cols occ w h")
  case None
  then show ?thesis .
next
  case (Some y)
  assume "0 \<le> cols" "cols < w"
  with findFreeFrom_wide [OF Some [unfolded findFree_def]] show ?thesis by simp
qed

lemma overlap_iff_covers: "overlap p q \<longleftrightarrow> (\<exists>c r. covers p c r \<and> covers q c r)"
proof
  assume "overlap p q"
  then have "covers p (max (pcol p) (pcol q)) (max (prow p) (prow q)) \<and>
             covers q (max (pcol p) (pcol q)) (max (prow p) (prow q))"
    by (auto simp: overlap_def covers_def)
  then show "\<exists>c r. covers p c r \<and> covers q c r" by blast
next
  assume "\<exists>c r. covers p c r \<and> covers q c r"
  then show "overlap p q"
    by (auto simp: overlap_def covers_def)
qed

lemma findFree_firstFit:
  assumes "findFree cols occ w h = Some (Inr (occ', c1, r1))"
  shows "firstFit cols occ w h c1 r1" and "length occ \<le> length occ'"
    and "cellOcc occ' c r \<longleftrightarrow> cellOcc occ c r"
proof -
  from assms have "searchPost cols occ w h 0 (Inr (occ', c1, r1))"
    unfolding findFree_def by (rule findFreeFrom_sound)
  then have post: "0 \<le> r1" "0 \<le> c1" "c1 \<le> cols - w" "rectFree occ w h c1 r1"
    "\<forall>r'\<in>{0..<r1}. \<forall>c'\<in>{0..cols - w}. \<not> rectFree occ w h c' r'"
    "\<forall>c'\<in>{0..<c1}. \<not> rectFree occ w h c' r1"
    "length occ \<le> length occ'" "\<forall>c r. cellOcc occ' c r \<longleftrightarrow> cellOcc occ c r"
    by (simp_all add: searchPost_def)
  from post(1-6) show "firstFit cols occ w h c1 r1"
    by (auto simp: firstFit_def)
  from post(7) show "length occ \<le> length occ'" .
  from post(8) show "cellOcc occ' c r \<longleftrightarrow> cellOcc occ c r" by simp
qed

lemma findFree_total:
  assumes "0 \<le> cols" "w \<le> cols"
  shows "\<exists>occ' c1 r1. findFree cols occ w h = Some (Inr (occ', c1, r1))"
  unfolding findFree_def
proof (rule findFreeFrom_total [OF assms])
  show "(0::int) \<le> 0" by simp
  show "\<And>c r'. cellOcc occ c r' \<Longrightarrow> r' < int (length occ)"
    by (simp add: cellOcc_def)
qed

section \<open>One slot, and the loop over the slots\<close>

lemma packStep_Inr:
  assumes "packStep gw gh cols (occ, ps) s = Some (Inr (occ', ps'))"
  obtains p where "ps' = ps @ [p]" and "pslot p = slot s" and "pw p = gw s" and "ph p = gh s"
    and "\<And>x y. gridX s = Some x \<Longrightarrow> gridY s = Some y \<Longrightarrow> pcol p = x \<and> prow p = y"
    and "gridX s = None \<or> gridY s = None \<Longrightarrow> firstFit cols occ (gw s) (gh s) (pcol p) (prow p)"
    and "\<And>c r. cellOcc occ' c r \<longleftrightarrow> cellOcc occ c r \<or> (0 \<le> c \<and> covers p c r)"
    and "length occ \<le> length occ'"
proof (cases "gridX s = None \<or> gridY s = None")
  case True
  with assms obtain occ1 c1 r1 where
    f: "findFree cols occ (gw s) (gh s) = Some (Inr (occ1, c1, r1))" and
    m: "markOccupied cols occ1 c1 r1 (gw s) (gh s) = Inr occ'" and
    p: "ps' = ps @ [\<lparr>pslot = slot s, pcol = c1, prow = r1, pw = gw s, ph = gh s\<rparr>]"
    by (auto simp: packStep_def Let_def split: option.splits sum.splits)
  let ?p = "\<lparr>pslot = slot s, pcol = c1, prow = r1, pw = gw s, ph = gh s\<rparr>"
  show thesis
  proof (rule that [of ?p])
    show "ps' = ps @ [?p]" by (rule p)
    show "gridX s = None \<or> gridY s = None \<Longrightarrow> firstFit cols occ (gw s) (gh s) (pcol ?p) (prow ?p)"
      using findFree_firstFit(1) [OF f] by simp
    show "\<And>x y. gridX s = Some x \<Longrightarrow> gridY s = Some y \<Longrightarrow> pcol ?p = x \<and> prow ?p = y"
      using True by auto
    show "\<And>c r. cellOcc occ' c r \<longleftrightarrow> cellOcc occ c r \<or> (0 \<le> c \<and> covers ?p c r)"
      using markOccupied_Inr(2) [OF m] findFree_firstFit(3) [OF f]
      by (auto simp: covers_def)
    show "length occ \<le> length occ'"
      using markOccupied_Inr(1) [OF m] findFree_firstFit(2) [OF f] by simp
  qed simp_all
next
  case False
  then obtain x y where xy: "gridX s = Some x" "gridY s = Some y" by auto
  with assms have
    m: "markOccupied cols occ x y (gw s) (gh s) = Inr occ'" and
    p: "ps' = ps @ [\<lparr>pslot = slot s, pcol = x, prow = y, pw = gw s, ph = gh s\<rparr>]"
    by (auto simp: packStep_def Let_def split: sum.splits)
  let ?p = "\<lparr>pslot = slot s, pcol = x, prow = y, pw = gw s, ph = gh s\<rparr>"
  show thesis
  proof (rule that [of ?p])
    show "ps' = ps @ [?p]" by (rule p)
    show "gridX s = None \<or> gridY s = None \<Longrightarrow> firstFit cols occ (gw s) (gh s) (pcol ?p) (prow ?p)"
      using False by simp
    show "\<And>x' y'. gridX s = Some x' \<Longrightarrow> gridY s = Some y' \<Longrightarrow> pcol ?p = x' \<and> prow ?p = y'"
      using xy by simp
    show "\<And>c r. cellOcc occ' c r \<longleftrightarrow> cellOcc occ c r \<or> (0 \<le> c \<and> covers ?p c r)"
      using markOccupied_Inr(2) [OF m] by (auto simp: covers_def)
    show "length occ \<le> length occ'"
      using markOccupied_Inr(1) [OF m] by simp
  qed simp_all
qed

lemma packStep_ok:
  assumes "0 \<le> cols" "gw s \<le> cols"
    and "\<forall>x y. gridX s = Some x \<longrightarrow> gridY s = Some y \<longrightarrow> 0 \<le> y"
  shows "\<exists>st'. packStep gw gh cols st s = Some (Inr st')"
proof (cases "gridX s = None \<or> gridY s = None")
  case True
  obtain occ ps where st: "st = (occ, ps)" by (cases st)
  from findFree_total [OF assms(1,2)] obtain occ1 c1 r1 where
    f: "findFree cols occ (gw s) (gh s) = Some (Inr (occ1, c1, r1))" by blast
  from findFree_firstFit(1) [OF f] have "0 \<le> r1" by (simp add: firstFit_def)
  with markOccupied_ok [OF assms(1), of r1 "gw s" "gh s" occ1 c1] obtain occ2 where
    "markOccupied cols occ1 c1 r1 (gw s) (gh s) = Inr occ2" by blast
  with True f st show ?thesis
    by (auto simp: packStep_def Let_def split: option.splits)
next
  case False
  obtain occ ps where st: "st = (occ, ps)" by (cases st)
  from False obtain x y where xy: "gridX s = Some x" "gridY s = Some y" by auto
  from assms(3) xy have "0 \<le> y" by simp
  with markOccupied_ok [OF assms(1), of y "gw s" "gh s" occ x] obtain occ2 where
    "markOccupied cols occ x y (gw s) (gh s) = Inr occ2" by blast
  with xy st show ?thesis
    by (simp add: packStep_def Let_def)
qed

lemma packLoop_append:
  "packLoop gw gh cols st (xs @ ys) =
     (case packLoop gw gh cols st xs of
        None \<Rightarrow> None
      | Some (Inl e) \<Rightarrow> Some (Inl e)
      | Some (Inr st') \<Rightarrow> packLoop gw gh cols st' ys)"
  by (induction xs arbitrary: st) (auto split: option.splits sum.splits)

lemma packLoop_snoc:
  "packLoop gw gh cols st (xs @ [s]) =
     (case packLoop gw gh cols st xs of
        None \<Rightarrow> None
      | Some (Inl e) \<Rightarrow> Some (Inl e)
      | Some (Inr st') \<Rightarrow> packStep gw gh cols st' s)"
  by (simp add: packLoop_append split: option.splits sum.splits)

lemma packLoop_grows:
  "packLoop gw gh cols (occ0, ps0) ss = Some (Inr (occ, ps)) \<Longrightarrow>
   \<exists>qs. ps = ps0 @ qs \<and> length qs = length ss"
proof (induction ss arbitrary: occ0 ps0)
  case Nil
  then show ?case by simp
next
  case (Cons s ss)
  from Cons.prems obtain occ1 ps1 where
    step: "packStep gw gh cols (occ0, ps0) s = Some (Inr (occ1, ps1))" and
    rest: "packLoop gw gh cols (occ1, ps1) ss = Some (Inr (occ, ps))"
    by (auto split: option.splits sum.splits)
  from step obtain p where "ps1 = ps0 @ [p]" by (rule packStep_Inr)
  with Cons.IH [OF rest] show ?case by auto
qed

lemma packLoop_nth:
  assumes "packLoop gw gh cols ([], []) slots = Some (Inr (occF, psF))" and "i < length slots"
  obtains occ occ' where
    "packLoop gw gh cols ([], []) (take i slots) = Some (Inr (occ, take i psF))" and
    "packStep gw gh cols (occ, take i psF) (slots ! i) = Some (Inr (occ', take i psF @ [psF ! i]))" and
    "length psF = length slots"
proof -
  from assms(2) have split: "slots = take i slots @ slots ! i # drop (Suc i) slots"
    by (simp add: id_take_nth_drop)
  from assms(1) have "packLoop gw gh cols ([], []) (take i slots @ slots ! i # drop (Suc i) slots)
                      = Some (Inr (occF, psF))"
    using split by simp
  then obtain occ ps occ1 ps1 where
    pre: "packLoop gw gh cols ([], []) (take i slots) = Some (Inr (occ, ps))" and
    step: "packStep gw gh cols (occ, ps) (slots ! i) = Some (Inr (occ1, ps1))" and
    rest: "packLoop gw gh cols (occ1, ps1) (drop (Suc i) slots) = Some (Inr (occF, psF))"
    by (auto simp: packLoop_append split: option.splits sum.splits)
  from packLoop_grows [OF pre] assms(2) have len: "length ps = i" by simp
  from step obtain p where p: "ps1 = ps @ [p]" by (rule packStep_Inr)
  from packLoop_grows [OF rest] obtain qs where
    qs: "psF = ps1 @ qs" "length qs = length (drop (Suc i) slots)" by blast
  from qs p len have "take i psF = ps" "psF ! i = p" by (simp_all add: nth_append)
  moreover from packLoop_grows [OF assms(1)] have "length psF = length slots" by simp
  ultimately show thesis using that pre step p by simp
qed

lemma packLoop_marked:
  "packLoop gw gh cols ([], []) xs = Some (Inr (occ, ps)) \<Longrightarrow> marked occ ps"
proof (induction xs arbitrary: occ ps rule: rev_induct)
  case Nil
  then show ?case by (simp add: marked_def)
next
  case (snoc s xs)
  from snoc.prems obtain occ0 ps0 where
    pre: "packLoop gw gh cols ([], []) xs = Some (Inr (occ0, ps0))" and
    step: "packStep gw gh cols (occ0, ps0) s = Some (Inr (occ, ps))"
    by (auto simp: packLoop_snoc split: option.splits sum.splits)
  from step show ?case
  proof (rule packStep_Inr)
    fix p
    assume "ps = ps0 @ [p]"
      and "\<And>c r. cellOcc occ c r \<longleftrightarrow> cellOcc occ0 c r \<or> (0 \<le> c \<and> covers p c r)"
    with snoc.IH [OF pre] show ?thesis
      by (auto simp: marked_def)
  qed
qed

lemma packItems_Inr:
  "packItems gw gh slots cols = Some (Inr res) \<Longrightarrow>
   \<exists>occ. packLoop gw gh cols ([], []) slots = Some (Inr (occ, placements res))"
  by (auto simp: packItems_def Let_def split: option.splits sum.splits)


lemma packItems_step:
  assumes "packItems gw gh slots cols = Some (Inr res)" and "i < length slots"
  obtains occ occ' where
    "packLoop gw gh cols ([], []) (take i slots) = Some (Inr (occ, take i (placements res)))" and
    "packStep gw gh cols (occ, take i (placements res)) (slots ! i) =
       Some (Inr (occ', take i (placements res) @ [placements res ! i]))" and
    "length (placements res) = length slots"
proof -
  from packItems_Inr [OF assms(1)] obtain occF where
    "packLoop gw gh cols ([], []) slots = Some (Inr (occF, placements res))" by blast
  from this assms(2) show thesis
    by (rule packLoop_nth) (rule that)
qed

lemma packItems_length:
  assumes "packItems gw gh slots cols = Some (Inr res)"
  shows "length (placements res) = length slots"
proof -
  from packItems_Inr [OF assms] obtain occF where
    "packLoop gw gh cols ([], []) slots = Some (Inr (occF, placements res))" by blast
  from packLoop_grows [OF this] show ?thesis by simp
qed

lemma packItems_pslot:
  assumes "packItems gw gh slots cols = Some (Inr res)" and "i < length slots"
  shows "pslot (placements res ! i) = slot (slots ! i)"
proof -
  from assms obtain occ occ' where
    step: "packStep gw gh cols (occ, take i (placements res)) (slots ! i) =
             Some (Inr (occ', take i (placements res) @ [placements res ! i]))"
    by (rule packItems_step)
  from step show ?thesis
  proof (rule packStep_Inr)
    fix p
    assume "take i (placements res) @ [placements res ! i] = take i (placements res) @ [p]"
      and "pslot p = slot (slots ! i)"
    then show ?thesis by simp
  qed
qed

lemma fixedPosition_None_iff: "fixedPosition s = None \<longleftrightarrow> gridX s = None \<or> gridY s = None"
  by (simp add: fixedPosition_def split: option.splits)

lemma unfixed_first_fit:
  assumes "packItems gw gh slots cols = Some (Inr res)" and "i < length slots"
    and "gridX (slots ! i) = None \<or> gridY (slots ! i) = None"
  shows "\<exists>occ. packLoop gw gh cols ([], []) (take i slots) =
                 Some (Inr (occ, take i (placements res))) \<and>
               firstFit cols occ (gw (slots ! i)) (gh (slots ! i))
                 (pcol (placements res ! i)) (prow (placements res ! i))"
proof -
  let ?ps = "placements res"
  from assms(1,2) obtain occ occ' where
    pre: "packLoop gw gh cols ([], []) (take i slots) = Some (Inr (occ, take i ?ps))" and
    step: "packStep gw gh cols (occ, take i ?ps) (slots ! i) =
             Some (Inr (occ', take i ?ps @ [?ps ! i]))"
    by (rule packItems_step)
  from step have "firstFit cols occ (gw (slots ! i)) (gh (slots ! i)) (pcol (?ps ! i)) (prow (?ps ! i))"
  proof (rule packStep_Inr)
    fix p
    assume "take i ?ps @ [?ps ! i] = take i ?ps @ [p]"
      and "gridX (slots ! i) = None \<or> gridY (slots ! i) = None \<Longrightarrow>
             firstFit cols occ (gw (slots ! i)) (gh (slots ! i)) (pcol p) (prow p)"
    with assms(3) show ?thesis by simp
  qed
  with pre show ?thesis by blast
qed

lemma packStep_fixed:
  assumes "gridX s = Some x" and "gridY s = Some y"
  shows "packStep gw gh cols (occ, ps) s =
           (case markOccupied cols occ x y (gw s) (gh s) of
              Inl e \<Rightarrow> Some (Inl e)
            | Inr occ1 \<Rightarrow>
                Some (Inr (occ1, ps @ [\<lparr>pslot = slot s, pcol = x, prow = y,
                                         pw = gw s, ph = gh s\<rparr>])))"
  using assms by (simp add: packStep_def Let_def)

lemma foldl_max_fold:
  fixes f :: "'a \<Rightarrow> int"
  shows "foldl (\<lambda>m p. max m (f p)) a ps = fold max (map f ps) a"
  by (induction ps arbitrary: a) (simp_all add: max.commute)

lemma foldl_max:
  fixes f :: "'a \<Rightarrow> int"
  shows "foldl (\<lambda>m p. max m (f p)) a ps = Max (insert a (f ` set ps))"
proof -
  have "Max (set (a # map f ps)) = fold max (map f ps) a"
    by (rule Max.set_eq_fold)
  then show ?thesis by (simp add: foldl_max_fold)
qed

lemma packStep_cong:
  assumes "slot s = slot t" "gw s = gw' t" "gh s = gh' t" "fixedPosition s = fixedPosition t"
  shows "packStep gw gh cols st s = packStep gw' gh' cols st t"
proof -
  obtain occ ps where st: "st = (occ, ps)" by (cases st)
  from assms(4) show ?thesis
    unfolding packStep_def assms(1-3) st
    by (cases "gridX s"; cases "gridY s"; cases "gridX t"; cases "gridY t")
       (simp_all add: fixedPosition_def)
qed

lemma packLoop_rel:
  assumes "list_all2 (\<lambda>s t. slot s = slot t \<and> gw s = gw' t \<and> gh s = gh' t \<and>
                             fixedPosition s = fixedPosition t) xs ys"
  shows "packLoop gw gh cols st xs = packLoop gw' gh' cols st ys"
  using assms
proof (induction xs ys arbitrary: st rule: list_all2_induct)
  case Nil
  show ?case by simp
next
  case (Cons s xs t ys)
  from Cons.hyps(1) have "packStep gw gh cols st s = packStep gw' gh' cols st t"
    by (intro packStep_cong) simp_all
  with Cons.IH show ?case by (simp split: option.splits sum.splits)
qed

subsection \<open>Slots of size 1 x 1\<close>

lemma rowmajor_unique:
  fixes cols c r n :: int
  assumes "0 < cols" "0 \<le> c" "c < cols" "r * cols + c = n"
  shows "r = n div cols" and "c = n mod cols"
proof -
  from assms(4) have n: "n = c + r * cols" by simp
  from assms(1-3) show "r = n div cols" unfolding n by simp
  from assms(1-3) show "c = n mod cols" unfolding n by simp
qed

lemma firstFit_filled:
  assumes cols: "0 < cols" and f: "filled cols occ n" and ff: "firstFit cols occ 1 1 c r"
  shows "c = int n mod cols" and "r = int n div cols"
proof -
  let ?c0 = "int n mod cols" and ?r0 = "int n div cols"
  from cols have c0: "0 \<le> ?c0" "?c0 < cols" by simp_all
  from cols have r0: "0 \<le> ?r0" by (simp add: pos_imp_zdiv_nonneg_iff)
  have decomp: "?r0 * cols + ?c0 = int n" by simp
  from ff have range: "0 \<le> r" "0 \<le> c" "c < cols" and free: "\<not> cellOcc occ c r"
    and raw: "\<forall>r'\<in>{0..r}. \<forall>c'\<in>{0..cols - 1}.
                r' < r \<or> (r' = r \<and> c' < c) \<longrightarrow> \<not> rectFree occ 1 1 c' r'"
    by (simp_all add: firstFit_def rectFree_unit)
  have least: "cellOcc occ c' r'"
    if "0 \<le> r'" "r' \<le> r" "0 \<le> c'" "c' < cols" "r' < r \<or> (r' = r \<and> c' < c)" for r' c'
  proof -
    from that have "r' \<in> {0..r}" "c' \<in> {0..cols - 1}" by auto
    with raw that(5) have "\<not> rectFree occ 1 1 c' r'" by blast
    then show ?thesis by (simp add: rectFree_unit)
  qed
  from free f range have ge: "int n \<le> r * cols + c" by (auto simp: filled_def)
  have free0: "\<not> cellOcc occ ?c0 ?r0"
    using f decomp by (simp add: filled_def)
  have "?r0 \<le> r"
  proof (rule ccontr)
    assume "\<not> ?r0 \<le> r"
    then have "r + 1 \<le> ?r0" by simp
    with cols have "(r + 1) * cols \<le> ?r0 * cols" by (simp add: mult_right_mono)
    also have "\<dots> \<le> int n" using decomp c0 by linarith
    finally have "r * cols + cols \<le> int n" by (simp add: algebra_simps)
    with ge range show False by simp
  qed
  with least [OF r0 _ c0] free0 have "\<not> (?r0 < r \<or> (?r0 = r \<and> ?c0 < c))" by blast
  with \<open>?r0 \<le> r\<close> have req: "r = ?r0" and cle: "c \<le> ?c0" by auto
  from ge req have "int n \<le> ?r0 * cols + c" by simp
  with decomp have "?c0 \<le> c" by linarith
  with cle show "c = ?c0" by simp
  from req show "r = ?r0" .
qed

lemma filled_step:
  assumes cols: "0 < cols" and f: "filled cols occ n"
    and upd: "\<And>c r. cellOcc occ' c r \<longleftrightarrow> cellOcc occ c r \<or> (0 \<le> c \<and> covers p c r)"
    and p: "pcol p = int n mod cols" "prow p = int n div cols" "pw p = 1" "ph p = 1"
  shows "filled cols occ' (Suc n)"
  unfolding filled_def
proof (intro allI)
  fix c r
  have cov: "covers p c r \<longleftrightarrow> c = int n mod cols \<and> r = int n div cols"
    using p by (auto simp: covers_def)
  from cols have c0: "0 \<le> int n mod cols" "int n mod cols < cols" by simp_all
  from cols have r0: "0 \<le> int n div cols" by (simp add: pos_imp_zdiv_nonneg_iff)
  have decomp: "(int n div cols) * cols + int n mod cols = int n" by simp
  show "cellOcc occ' c r \<longleftrightarrow> 0 \<le> c \<and> c < cols \<and> 0 \<le> r \<and> r * cols + c < int (Suc n)"
  proof (cases "0 \<le> c \<and> c < cols \<and> 0 \<le> r")
    case True
    have "r * cols + c = int n \<longleftrightarrow> c = int n mod cols \<and> r = int n div cols"
    proof
      assume "r * cols + c = int n"
      with rowmajor_unique [OF cols _ _ this] True show "c = int n mod cols \<and> r = int n div cols"
        by simp
    next
      assume "c = int n mod cols \<and> r = int n div cols"
      with decomp show "r * cols + c = int n" by simp
    qed
    with True cov f upd [of c r] show ?thesis
      by (auto simp: filled_def)
  next
    case False
    with cov c0 r0 f upd [of c r] show ?thesis
      by (auto simp: filled_def)
  qed
qed

lemma rowMajor_snoc:
  "rowMajor cols (xs @ [s]) =
     rowMajor cols xs @ [\<lparr>pslot = slot s, pcol = int (length xs) mod cols,
                         prow = int (length xs) div cols, pw = 1, ph = 1\<rparr>]"
  by (simp add: rowMajor_def nth_append)

lemma packLoop_unit:
  assumes cols: "0 < cols"
  shows "\<forall>s\<in>set xs. gw s = 1 \<and> gh s = 1 \<and> (gridX s = None \<or> gridY s = None) \<Longrightarrow>
         \<exists>occ. packLoop gw gh cols ([], []) xs = Some (Inr (occ, rowMajor cols xs)) \<and>
               filled cols occ (length xs)"
proof (induction xs rule: rev_induct)
  case Nil
  have "\<not> (0 \<le> c \<and> c < cols \<and> 0 \<le> r \<and> r * cols + c < 0)" for c r :: int
  proof
    assume a: "0 \<le> c \<and> c < cols \<and> 0 \<le> r \<and> r * cols + c < 0"
    with cols have "0 \<le> r * cols" by simp
    moreover from a have "0 \<le> c" "r * cols + c < 0" by simp_all
    ultimately show False by linarith
  qed
  then have "filled cols [] 0" by (auto simp: filled_def cellOcc_def)
  then show ?case by (simp add: rowMajor_def)
next
  case (snoc s xs)
  from snoc obtain occ where
    pre: "packLoop gw gh cols ([], []) xs = Some (Inr (occ, rowMajor cols xs))" and
    f: "filled cols occ (length xs)" by auto
  from snoc.prems have s: "gw s = 1" "gh s = 1" "gridX s = None \<or> gridY s = None" by auto
  from cols s have "0 \<le> cols" "gw s \<le> cols"
    "\<forall>x y. gridX s = Some x \<longrightarrow> gridY s = Some y \<longrightarrow> 0 \<le> y" by auto
  from packStep_ok [where gw = gw and s = s, OF this] obtain occ' ps' where
    step: "packStep gw gh cols (occ, rowMajor cols xs) s = Some (Inr (occ', ps'))" by fastforce
  from step show ?case
  proof (rule packStep_Inr)
    fix p
    assume ps': "ps' = rowMajor cols xs @ [p]" and p: "pslot p = slot s" "pw p = gw s" "ph p = gh s"
      and ff: "gridX s = None \<or> gridY s = None \<Longrightarrow> firstFit cols occ (gw s) (gh s) (pcol p) (prow p)"
      and upd: "\<And>c r. cellOcc occ' c r \<longleftrightarrow> cellOcc occ c r \<or> (0 \<le> c \<and> covers p c r)"
    from ff s have "firstFit cols occ 1 1 (pcol p) (prow p)" by simp
    from firstFit_filled [OF cols f this]
    have pos: "pcol p = int (length xs) mod cols" "prow p = int (length xs) div cols" .
    with p s have "p = \<lparr>pslot = slot s, pcol = int (length xs) mod cols,
                         prow = int (length xs) div cols, pw = 1, ph = 1\<rparr>" by simp
    with ps' have "ps' = rowMajor cols (xs @ [s])" by (simp add: rowMajor_snoc)
    moreover from filled_step [OF cols f upd pos] p s have "filled cols occ' (length (xs @ [s]))"
      by simp
    ultimately show ?thesis using pre step by (auto simp: packLoop_snoc)
  qed
qed

section \<open>The cell map and the empty cells\<close>

lemma assignCell_pair:
  "assignCell m es cell (k, res) =
     (if m cell = None \<and> k < length es
      then (k + 1, res @ [(fst cell, snd cell, es ! k)]) else (k, res))"
  by (simp add: assignCell_def)

lemma setCols_dom:
  "dom (setCols m v r c cend) = dom m \<union> {(c', r') | c' r'. r' = r \<and> c \<le> c' \<and> c' < cend}"
proof (induction m v r c cend rule: setCols.induct)
  case (1 m v r c cend)
  show ?case
  proof (cases "c < cend")
    case True
    have "setCols m v r c cend = setCols (m((c, r) \<mapsto> v)) v r (c + 1) cend"
      using True by (subst setCols.simps) simp
    then have "dom (setCols m v r c cend) = dom (setCols (m((c, r) \<mapsto> v)) v r (c + 1) cend)"
      by (rule arg_cong)
    also have "\<dots> = dom (m((c, r) \<mapsto> v)) \<union> {(c', r') | c' r'. r' = r \<and> c + 1 \<le> c' \<and> c' < cend}"
      by (rule "1.IH" [OF True])
    also have "\<dots> = dom m \<union> {(c', r') | c' r'. r' = r \<and> c \<le> c' \<and> c' < cend}"
      using True by (auto simp del: fun_upd_apply)
    finally show ?thesis .
  next
    case False
    then show ?thesis
      by (auto simp: setCols.simps [of m v r c cend])
  qed
qed

lemma setRows_dom:
  "dom (setRows m v r rend) =
     dom m \<union> {(c', r') | c' r'. r \<le> r' \<and> r' < rend \<and>
                 pcol (fst v) \<le> c' \<and> c' < pcol (fst v) + pw (fst v)}"
proof (induction m v r rend rule: setRows.induct)
  case (1 m v r rend)
  show ?case
  proof (cases "r < rend")
    case True
    let ?m1 = "setCols m v r (pcol (fst v)) (pcol (fst v) + pw (fst v))"
    have "setRows m v r rend = setRows ?m1 v (r + 1) rend"
      using True by (subst setRows.simps) simp
    then have "dom (setRows m v r rend) = dom (setRows ?m1 v (r + 1) rend)"
      by (rule arg_cong)
    also have "\<dots> = dom ?m1 \<union> {(c', r') | c' r'. r + 1 \<le> r' \<and> r' < rend \<and>
                 pcol (fst v) \<le> c' \<and> c' < pcol (fst v) + pw (fst v)}"
      by (rule "1.IH" [OF True])
    also have "\<dots> = dom m \<union> {(c', r') | c' r'. r \<le> r' \<and> r' < rend \<and>
                 pcol (fst v) \<le> c' \<and> c' < pcol (fst v) + pw (fst v)}"
      using True unfolding setCols_dom by auto
    finally show ?thesis .
  next
    case False
    then show ?thesis
      by (auto simp: setRows.simps [of m v r rend])
  qed
qed

lemma placementMapFrom_dom:
  "dom (placementMapFrom m slots ps) =
     dom m \<union> {(c, r) | c r. \<exists>p\<in>set ps. (\<exists>s\<in>set slots. slot s = pslot p) \<and> covers p c r}"
proof (induction ps arbitrary: m)
  case Nil
  then show ?case by simp
next
  case (Cons p ps)
  show ?case
  proof (cases "find (\<lambda>s. slot s = pslot p) slots")
    case None
    then have "\<not> (\<exists>s\<in>set slots. slot s = pslot p)" by (simp add: find_None_iff)
    with None Cons.IH [of m] show ?thesis by auto
  next
    case (Some s)
    have "\<exists>s\<in>set slots. slot s = pslot p"
    proof (rule ccontr)
      assume "\<not> (\<exists>s\<in>set slots. slot s = pslot p)"
      then have "find (\<lambda>s. slot s = pslot p) slots = None" by (simp add: find_None_iff)
      with Some show False by simp
    qed
    with Some Cons.IH [of "setRows m (p, s) (prow p) (prow p + ph p)"] show ?thesis
      by (auto simp: setRows_dom covers_def)
  qed
qed

lemma placementMap_None:
  assumes "\<forall>p\<in>set ps. \<exists>s\<in>set slots. slot s = pslot p"
  shows "placementMap slots ps cell = None \<longleftrightarrow> \<not> covered ps cell"
proof -
  obtain c r where cell: "cell = (c, r)" by (cases cell)
  have "placementMap slots ps cell = None \<longleftrightarrow> cell \<notin> dom (placementMap slots ps)"
    by (cases "placementMap slots ps cell") (simp_all add: dom_def)
  also have "\<dots> \<longleftrightarrow> \<not> covered ps cell"
    using assms unfolding cell placementMap_def covered_def placementMapFrom_dom by auto
  finally show ?thesis .
qed

lemma emptyCols_fold:
  "emptyCols m es r c st = fold (assignCell m es) (map (\<lambda>c. (c, r)) [c..GRID_COLS - 1]) st"
proof (induction m es r c st rule: emptyCols.induct)
  case (1 m es r c st)
  show ?case
  proof (cases "c < GRID_COLS")
    case True
    then have cells: "[c..GRID_COLS - 1] = c # [c + 1..GRID_COLS - 1]"
      by (simp add: upto_rec1)
    obtain k res where st: "st = (k, res)" by (cases st)
    note ih = "1.IH" [OF True, unfolded st]
    show ?thesis
    proof (cases "m (c, r)")
      case None
      show ?thesis
      proof (cases "k < length es")
        case True
        with ih None \<open>c < GRID_COLS\<close> show ?thesis
          unfolding st cells by (simp add: emptyCols.simps [of m es r c "(k, res)"] assignCell_pair)
      next
        case False
        with ih None \<open>c < GRID_COLS\<close> show ?thesis
          unfolding st cells by (simp add: emptyCols.simps [of m es r c "(k, res)"] assignCell_pair)
      qed
    next
      case (Some v)
      with ih \<open>c < GRID_COLS\<close> show ?thesis
        unfolding st cells by (simp add: emptyCols.simps [of m es r c "(k, res)"] assignCell_pair)
    qed
  next
    case False
    then show ?thesis
      by (simp add: emptyCols.simps [of m es r c st])
  qed
qed

lemma emptyRows_fold:
  "emptyRows m es nrows r st =
     fold (assignCell m es)
       (concat (map (\<lambda>r. map (\<lambda>c. (c, r)) [0..GRID_COLS - 1]) [r..nrows - 1])) st"
proof (induction m es nrows r st rule: emptyRows.induct)
  case (1 m es nrows r st)
  show ?case
  proof (cases "r < nrows")
    case True
    then have "[r..nrows - 1] = r # [r + 1..nrows - 1]"
      by (simp add: upto_rec1)
    with "1.IH" [OF True] True show ?thesis
      by (simp add: emptyRows.simps [of m es nrows r st] emptyCols_fold)
  next
    case False
    then show ?thesis
      by (simp add: emptyRows.simps [of m es nrows r st])
  qed
qed

lemma fold_assignCell:
  "snd (fold (assignCell m es) cells (k, res)) =
     res @ map (\<lambda>(cell, s). (fst cell, snd cell, s))
             (zip (filter (\<lambda>cell. m cell = None) cells) (drop k es))"
proof (induction cells arbitrary: k res)
  case Nil
  then show ?case by simp
next
  case (Cons cell cells)
  show ?case
  proof (cases "m cell")
    case None
    show ?thesis
    proof (cases "k < length es")
      case True
      then have "drop k es = es ! k # drop (Suc k) es"
        by (simp add: Cons_nth_drop_Suc)
      with True None Cons.IH [of "k + 1"] show ?thesis
        by (simp add: assignCell_pair)
    next
      case False
      with None Cons.IH [of k res] show ?thesis
        by (simp add: assignCell_pair)
    qed
  next
    case (Some v)
    with Cons.IH [of k res] show ?thesis
      by (simp add: assignCell_pair)
  qed
qed

lemma emptyCellSlots_zip:
  "emptyCellSlots slots m nrows =
     map (\<lambda>(cell, s). (fst cell, snd cell, s))
       (zip (filter (\<lambda>cell. m cell = None) (gridCells nrows))
            (filter (\<lambda>s. name s = None) slots))"
  by (simp add: emptyCellSlots_def emptyRows_fold fold_assignCell gridCells_def)

section \<open>Runs on concrete inputs\<close>

text \<open>
  The equations that evaluate a run of the packer by rewriting.
\<close>

lemmas pack_eval = packItems_def packStep_def findFree_def findFreeFrom.simps ensureRows.simps
  scanRow.simps fitsRows.simps fitsCells.simps markOccupied_def markRows.simps markCells.simps
  readCell_def setCell_def unitFootprint_def item_def itemAt_def emptySlot_def scenarioSize_def
  shelfWidth_def shelfHeight_def itemAtX_def emptySlotAt_def shelfSlots_def eval_nat_numeral

lemma run_overlap:
  "packItems unitFootprint unitFootprint [item 1, itemAt 2 0 0] 10 =
     Some (Inr \<lparr>placements = [\<lparr>pslot = 1, pcol = 0, prow = 0, pw = 1, ph = 1\<rparr>,
                               \<lparr>pslot = 2, pcol = 0, prow = 0, pw = 1, ph = 1\<rparr>], rows = 4\<rparr>)"
  by (simp add: pack_eval)

lemma run_scenario:
  "packItems scenarioSize scenarioSize [item 1, item 2, item 3, item 4] 10 =
     Some (Inr \<lparr>placements = [\<lparr>pslot = 1, pcol = 0, prow = 0, pw = 1, ph = 1\<rparr>,
                               \<lparr>pslot = 2, pcol = 1, prow = 0, pw = 1, ph = 1\<rparr>,
                               \<lparr>pslot = 3, pcol = 2, prow = 0, pw = 2, ph = 2\<rparr>,
                               \<lparr>pslot = 4, pcol = 4, prow = 0, pw = 1, ph = 1\<rparr>], rows = 4\<rparr>)"
  by (simp add: pack_eval)

lemma run_shelf:
  "packItems shelfWidth shelfHeight shelfSlots GRID_COLS =
     Some (Inr \<lparr>placements = [\<lparr>pslot = 1, pcol = 0, prow = 0, pw = 10, ph = 3\<rparr>,
                               \<lparr>pslot = 2, pcol = 0, prow = 3, pw = 2, ph = 1\<rparr>,
                               \<lparr>pslot = 3, pcol = 2, prow = 3, pw = 1, ph = 1\<rparr>,
                               \<lparr>pslot = 4, pcol = 3, prow = 3, pw = 1, ph = 1\<rparr>], rows = 4\<rparr>)"
  by (simp add: pack_eval GRID_COLS_def)

section \<open>The claims\<close>

subsection \<open>C1: placements found by the search overlap no earlier placement\<close>

text \<open>
  Claim C1 says that for every slot list with all widths \<open>w \<le> cols\<close> no two placements of
  \<^verbatim>\<open>packItems\<close> overlap, also when some slots carry fixed positions. The code records a fixed
  position without looking at the grid, so this fails: with 10 columns, an unpositioned
  \<open>1 \<times> 1\<close> item followed by a \<open>1 \<times> 1\<close> item fixed at \<open>(0, 0)\<close> gives two placements on the
  cell \<open>(0, 0)\<close>.
\<close>

theorem overlap_counterexample:
  "unitFootprint (item 1) \<le> 10 \<and> unitFootprint (itemAt 2 0 0) \<le> 10 \<and>
   packItems unitFootprint unitFootprint [item 1, itemAt 2 0 0] 10 =
     Some (Inr \<lparr>placements = [\<lparr>pslot = 1, pcol = 0, prow = 0, pw = 1, ph = 1\<rparr>,
                               \<lparr>pslot = 2, pcol = 0, prow = 0, pw = 1, ph = 1\<rparr>], rows = 4\<rparr>) \<and>
   overlap \<lparr>pslot = 1, pcol = 0, prow = 0, pw = 1, ph = 1\<rparr>
           \<lparr>pslot = 2, pcol = 0, prow = 0, pw = 1, ph = 1\<rparr>"
  by (simp add: pack_eval overlap_def)

text \<open>
  Claim C1 as amended: whenever \<^verbatim>\<open>packItems\<close> returns, the placement of a slot without a
  fixed position overlaps no placement of an earlier slot, fixed or not. In particular the
  placements are pairwise disjoint when no slot carries a fixed position.
\<close>

theorem searched_placement_disjoint:
  assumes "packItems gw gh slots cols = Some (Inr res)"
    and "i < j" and "j < length slots"
    and "gridX (slots ! j) = None \<or> gridY (slots ! j) = None"
  shows "\<not> overlap (placements res ! i) (placements res ! j)"
proof
  assume ov: "overlap (placements res ! i) (placements res ! j)"
  let ?ps = "placements res"
  from assms(1,3) obtain occ occ' where
    pre: "packLoop gw gh cols ([], []) (take j slots) = Some (Inr (occ, take j ?ps))" and
    step: "packStep gw gh cols (occ, take j ?ps) (slots ! j) =
             Some (Inr (occ', take j ?ps @ [?ps ! j]))" and
    len: "length ?ps = length slots"
    by (rule packItems_step)
  from packLoop_marked [OF pre] have m: "marked occ (take j ?ps)" .
  from assms(2,3) len have mem: "?ps ! i \<in> set (take j ?ps)"
    by (metis in_set_conv_nth length_take min.absorb2 nat_less_le nth_take)
  from ov obtain c r where cov: "covers (?ps ! i) c r" "covers (?ps ! j) c r"
    unfolding overlap_iff_covers by blast
  from step show False
  proof (rule packStep_Inr)
    fix p
    assume eq: "take j ?ps @ [?ps ! j] = take j ?ps @ [p]"
      and size: "pw p = gw (slots ! j)" "ph p = gh (slots ! j)"
      and ff: "gridX (slots ! j) = None \<or> gridY (slots ! j) = None \<Longrightarrow>
                 firstFit cols occ (gw (slots ! j)) (gh (slots ! j)) (pcol p) (prow p)"
    from eq have p: "p = ?ps ! j" by simp
    from ff [OF assms(4)] size have free: "rectFree occ (pw p) (ph p) (pcol p) (prow p)"
      and "0 \<le> pcol p" by (simp_all add: firstFit_def)
    with cov(2) p have "0 \<le> c" by (simp add: covers_def)
    with m mem cov(1) have "cellOcc occ c r" by (auto simp: marked_def)
    moreover from rectFree_covers [OF free] cov(2) p have "\<not> cellOcc occ c r" by simp
    ultimately show False by contradiction
  qed
qed

text \<open>
  Witness for C1: a slot fixed at \<open>(0, 0)\<close> followed by an unpositioned slot, which the search
  puts at \<open>(1, 0)\<close>.
\<close>

theorem searched_placement_disjoint_witness:
  "packItems unitFootprint unitFootprint [itemAt 1 0 0, item 2] 10 =
     Some (Inr \<lparr>placements = [\<lparr>pslot = 1, pcol = 0, prow = 0, pw = 1, ph = 1\<rparr>,
                               \<lparr>pslot = 2, pcol = 1, prow = 0, pw = 1, ph = 1\<rparr>], rows = 4\<rparr>) \<and>
   (0::nat) < 1 \<and> 1 < length [itemAt 1 0 0, item 2] \<and>
   (gridX ([itemAt 1 0 0, item 2] ! 1) = None \<or> gridY ([itemAt 1 0 0, item 2] ! 1) = None) \<and>
   \<not> overlap \<lparr>pslot = 1, pcol = 0, prow = 0, pw = 1, ph = 1\<rparr>
              \<lparr>pslot = 2, pcol = 1, prow = 0, pw = 1, ph = 1\<rparr>"
proof -
  have run: "packItems unitFootprint unitFootprint [itemAt 1 0 0, item 2] 10 =
     Some (Inr \<lparr>placements = [\<lparr>pslot = 1, pcol = 0, prow = 0, pw = 1, ph = 1\<rparr>,
                               \<lparr>pslot = 2, pcol = 1, prow = 0, pw = 1, ph = 1\<rparr>], rows = 4\<rparr>)"
    by (simp add: pack_eval)
  have unfixed: "gridX ([itemAt 1 0 0, item 2] ! 1) = None \<or> gridY ([itemAt 1 0 0, item 2] ! 1) = None"
    by (simp add: item_def)
  from searched_placement_disjoint [OF run, of 0 1] unfixed run show ?thesis by simp
qed

subsection \<open>C2: first fit in row-major order\<close>

text \<open>
  Claim C2: a slot without a fixed position is placed at the first free rectangle of its
  size in row-major scan order, given the occupancy left by the slots before it: with
  \<open>occ\<close> the grid after the first \<open>i\<close> slots, the position of placement \<open>i\<close> is the
  lexicographically least \<open>(r, c)\<close> with \<open>0 \<le> c \<le> cols - w\<close> whose \<open>w \<times> h\<close> rectangle is free in
  \<open>occ\<close>. And for 10 columns and the slots \<open>1 \<times> 1\<close>, \<open>1 \<times> 1\<close>, \<open>2 \<times> 2\<close>, \<open>1 \<times> 1\<close> the placements are
  \<open>(0, 0)\<close>, \<open>(1, 0)\<close>, \<open>(2, 0)\<close> with \<open>w = h = 2\<close>, and \<open>(4, 0)\<close>.
\<close>

theorem first_fit_placement:
  assumes "packItems gw gh slots cols = Some (Inr res)" and "i < length slots"
    and "gridX (slots ! i) = None \<or> gridY (slots ! i) = None"
  shows "(\<exists>occ. packLoop gw gh cols ([], []) (take i slots) =
                  Some (Inr (occ, take i (placements res))) \<and>
               firstFit cols occ (gw (slots ! i)) (gh (slots ! i))
                 (pcol (placements res ! i)) (prow (placements res ! i))) \<and>
         packItems scenarioSize scenarioSize [item 1, item 2, item 3, item 4] 10 =
           Some (Inr \<lparr>placements = [\<lparr>pslot = 1, pcol = 0, prow = 0, pw = 1, ph = 1\<rparr>,
                                     \<lparr>pslot = 2, pcol = 1, prow = 0, pw = 1, ph = 1\<rparr>,
                                     \<lparr>pslot = 3, pcol = 2, prow = 0, pw = 2, ph = 2\<rparr>,
                                     \<lparr>pslot = 4, pcol = 4, prow = 0, pw = 1, ph = 1\<rparr>],
                      rows = 4\<rparr>)"
  using unfixed_first_fit [OF assms] run_scenario by (rule conjI)

text \<open>
  Witness for C2: the \<open>2 \<times> 2\<close> slot of the scenario, on the grid the two slots before it
  leave.
\<close>

theorem first_fit_placement_witness:
  "packItems scenarioSize scenarioSize [item 1, item 2, item 3, item 4] 10 =
     Some (Inr \<lparr>placements = [\<lparr>pslot = 1, pcol = 0, prow = 0, pw = 1, ph = 1\<rparr>,
                               \<lparr>pslot = 2, pcol = 1, prow = 0, pw = 1, ph = 1\<rparr>,
                               \<lparr>pslot = 3, pcol = 2, prow = 0, pw = 2, ph = 2\<rparr>,
                               \<lparr>pslot = 4, pcol = 4, prow = 0, pw = 1, ph = 1\<rparr>], rows = 4\<rparr>) \<and>
   2 < length [item 1, item 2, item 3, item 4] \<and>
   (gridX ([item 1, item 2, item 3, item 4] ! 2) = None \<or>
    gridY ([item 1, item 2, item 3, item 4] ! 2) = None) \<and>
   firstFit 10 [[True, True, False, False, False, False, False, False, False, False]] 2 2 2 0"
proof -
  let ?slots = "[item 1, item 2, item 3, item 4]"
  let ?res = "\<lparr>placements = [\<lparr>pslot = 1, pcol = 0, prow = 0, pw = 1, ph = 1\<rparr>,
                               \<lparr>pslot = 2, pcol = 1, prow = 0, pw = 1, ph = 1\<rparr>,
                               \<lparr>pslot = 3, pcol = 2, prow = 0, pw = 2, ph = 2\<rparr>,
                               \<lparr>pslot = 4, pcol = 4, prow = 0, pw = 1, ph = 1\<rparr>], rows = 4\<rparr>"
  have run: "packItems scenarioSize scenarioSize ?slots 10 = Some (Inr ?res)"
    by (simp add: pack_eval)
  have unfixed: "gridX (?slots ! 2) = None \<or> gridY (?slots ! 2) = None"
    by (simp add: item_def)
  have pre: "packLoop scenarioSize scenarioSize 10 ([], []) (take 2 ?slots) =
               Some (Inr ([[True, True, False, False, False, False, False, False, False, False]],
                          [\<lparr>pslot = 1, pcol = 0, prow = 0, pw = 1, ph = 1\<rparr>,
                           \<lparr>pslot = 2, pcol = 1, prow = 0, pw = 1, ph = 1\<rparr>]))"
    by (simp add: pack_eval)
  from first_fit_placement [OF run _ unfixed] pre
  have "firstFit 10 [[True, True, False, False, False, False, False, False, False, False]] 2 2 2 0"
    by (simp add: scenarioSize_def item_def)
  with run unfixed show ?thesis by simp
qed

subsection \<open>C3: a fixed position is recorded as it is\<close>

text \<open>
  Claim C3: whenever \<^verbatim>\<open>packItems\<close> returns, the placement of a slot that carries a fixed
  position \<open>(x, y)\<close> is exactly \<open>(x, y)\<close> with the footprint of the slot, whatever the slots
  before it occupy. No search is run for such a slot: on every state its iteration is
  \<^verbatim>\<open>markOccupied\<close> at \<open>(x, y)\<close> and the recording of that placement.
\<close>

theorem fixed_position_honoured:
  assumes "packItems gw gh slots cols = Some (Inr res)" and "i < length slots"
    and "gridX (slots ! i) = Some x" and "gridY (slots ! i) = Some y"
  shows "placements res ! i =
           \<lparr>pslot = slot (slots ! i), pcol = x, prow = y,
            pw = gw (slots ! i), ph = gh (slots ! i)\<rparr> \<and>
         (\<forall>occ ps. packStep gw gh cols (occ, ps) (slots ! i) =
            (case markOccupied cols occ x y (gw (slots ! i)) (gh (slots ! i)) of
               Inl e \<Rightarrow> Some (Inl e)
             | Inr occ1 \<Rightarrow>
                 Some (Inr (occ1, ps @ [\<lparr>pslot = slot (slots ! i), pcol = x, prow = y,
                                          pw = gw (slots ! i), ph = gh (slots ! i)\<rparr>]))))"
proof
  let ?ps = "placements res"
  from assms(1,2) obtain occ occ' where
    step: "packStep gw gh cols (occ, take i ?ps) (slots ! i) =
             Some (Inr (occ', take i ?ps @ [?ps ! i]))"
    by (rule packItems_step)
  from step show "?ps ! i = \<lparr>pslot = slot (slots ! i), pcol = x, prow = y,
                             pw = gw (slots ! i), ph = gh (slots ! i)\<rparr>"
  proof (rule packStep_Inr)
    fix p
    assume "take i ?ps @ [?ps ! i] = take i ?ps @ [p]"
      and "pslot p = slot (slots ! i)" "pw p = gw (slots ! i)" "ph p = gh (slots ! i)"
      and "\<And>x y. gridX (slots ! i) = Some x \<Longrightarrow> gridY (slots ! i) = Some y \<Longrightarrow>
             pcol p = x \<and> prow p = y"
    with assms(3,4) show ?thesis by simp
  qed
next
  from assms(3,4) show "\<forall>occ ps. packStep gw gh cols (occ, ps) (slots ! i) =
            (case markOccupied cols occ x y (gw (slots ! i)) (gh (slots ! i)) of
               Inl e \<Rightarrow> Some (Inl e)
             | Inr occ1 \<Rightarrow>
                 Some (Inr (occ1, ps @ [\<lparr>pslot = slot (slots ! i), pcol = x, prow = y,
                                          pw = gw (slots ! i), ph = gh (slots ! i)\<rparr>])))"
    by (simp add: packStep_fixed)
qed

text \<open>
  Witness for C3: the slot fixed at \<open>(0, 0)\<close> keeps that position although the slot before
  it was placed there.
\<close>

theorem fixed_position_honoured_witness:
  "packItems unitFootprint unitFootprint [item 1, itemAt 2 0 0] 10 =
     Some (Inr \<lparr>placements = [\<lparr>pslot = 1, pcol = 0, prow = 0, pw = 1, ph = 1\<rparr>,
                               \<lparr>pslot = 2, pcol = 0, prow = 0, pw = 1, ph = 1\<rparr>], rows = 4\<rparr>) \<and>
   1 < length [item 1, itemAt 2 0 0] \<and>
   gridX ([item 1, itemAt 2 0 0] ! 1) = Some 0 \<and> gridY ([item 1, itemAt 2 0 0] ! 1) = Some 0 \<and>
   [\<lparr>pslot = 1, pcol = 0, prow = 0, pw = 1, ph = 1\<rparr>,
    \<lparr>pslot = 2, pcol = 0, prow = 0, pw = 1, ph = 1\<rparr>] ! 1 =
     \<lparr>pslot = slot ([item 1, itemAt 2 0 0] ! 1), pcol = 0, prow = 0,
      pw = unitFootprint ([item 1, itemAt 2 0 0] ! 1),
      ph = unitFootprint ([item 1, itemAt 2 0 0] ! 1)\<rparr>"
proof -
  have fixed: "gridX ([item 1, itemAt 2 0 0] ! 1) = Some 0" "gridY ([item 1, itemAt 2 0 0] ! 1) = Some 0"
    by (simp_all add: itemAt_def)
  from fixed_position_honoured [OF run_overlap _ fixed]
  have "placements \<lparr>placements = [\<lparr>pslot = 1, pcol = 0, prow = 0, pw = 1, ph = 1\<rparr>,
                                  \<lparr>pslot = 2, pcol = 0, prow = 0, pw = 1, ph = 1\<rparr>],
                    rows = 4\<rparr> ! 1 =
          \<lparr>pslot = slot ([item 1, itemAt 2 0 0] ! 1), pcol = 0, prow = 0,
           pw = unitFootprint ([item 1, itemAt 2 0 0] ! 1),
           ph = unitFootprint ([item 1, itemAt 2 0 0] ! 1)\<rparr>"
    by simp
  with run_overlap fixed show ?thesis by simp
qed

subsection \<open>C4: the packer returns one placement per slot\<close>




subsection \<open>C5: the row count\<close>

text \<open>
  Claim C5: whenever \<^verbatim>\<open>packItems\<close> returns, the row count is
  \<open>max(4, max over the placements of row + h)\<close>, the inner maximum being 0 when there is no
  placement; so it is at least 4.
\<close>

theorem rows_formula:
  assumes "packItems gw gh slots cols = Some (Inr res)"
  shows "rows res = max 4 (maxExtent (placements res)) \<and> 4 \<le> rows res"
proof -
  let ?f = "\<lambda>p. prow p + ph p"
  from assms have rows: "rows res = max (foldl (\<lambda>m p. max m (?f p)) 0 (placements res)) 4"
    by (auto simp: packItems_def Let_def split: option.splits sum.splits)
  show ?thesis
  proof (cases "placements res = []")
    case True
    with rows show ?thesis by (simp add: maxExtent_def)
  next
    case False
    then have "Max (insert 0 (?f ` set (placements res))) = max 0 (Max (?f ` set (placements res)))"
      by simp
    with rows False show ?thesis by (simp add: maxExtent_def foldl_max)
  qed
qed

text \<open>
  Witness for C5: one slot fixed at row 5 gives 6 rows.
\<close>

theorem rows_formula_witness:
  "packItems unitFootprint unitFootprint [itemAt 1 2 5] 10 =
     Some (Inr \<lparr>placements = [\<lparr>pslot = 1, pcol = 2, prow = 5, pw = 1, ph = 1\<rparr>], rows = 6\<rparr>) \<and>
   (6::int) = max 4 (maxExtent [\<lparr>pslot = 1, pcol = 2, prow = 5, pw = 1, ph = 1\<rparr>]) \<and> (4::int) \<le> 6"
proof -
  have run: "packItems unitFootprint unitFootprint [itemAt 1 2 5] 10 =
     Some (Inr \<lparr>placements = [\<lparr>pslot = 1, pcol = 2, prow = 5, pw = 1, ph = 1\<rparr>], rows = 6\<rparr>)"
    by (simp add: pack_eval)
  from rows_formula [OF run] run show ?thesis by simp
qed

subsection \<open>C6: slots of size 1 x 1 fill the grid in row-major order\<close>

text \<open>
  Claim C6: for \<open>cols > 0\<close> and slots that all have the \<open>1 \<times> 1\<close> footprint and no fixed
  position, \<^verbatim>\<open>packItems\<close> returns and gives the \<open>i\<close>-th slot (from 0, in input order) the cell
  \<open>(col = i mod cols, row = i div cols)\<close>.
\<close>

theorem unit_slots_row_major:
  assumes "0 < cols"
    and "\<forall>s\<in>set slots. gw s = 1 \<and> gh s = 1 \<and> (gridX s = None \<or> gridY s = None)"
  shows "\<exists>res. packItems gw gh slots cols = Some (Inr res) \<and>
           length (placements res) = length slots \<and>
           (\<forall>i<length slots. placements res ! i =
              \<lparr>pslot = slot (slots ! i), pcol = int i mod cols, prow = int i div cols,
               pw = 1, ph = 1\<rparr>)"
proof -
  from packLoop_unit [OF assms] obtain occ where
    "packLoop gw gh cols ([], []) slots = Some (Inr (occ, rowMajor cols slots))" by blast
  then obtain res where "packItems gw gh slots cols = Some (Inr res)"
    and "placements res = rowMajor cols slots"
    by (simp add: packItems_def Let_def)
  then show ?thesis by (auto simp: rowMajor_def)
qed

text \<open>
  Witness for C6: five slots in three columns; the fifth is at column 1 of row 1.
\<close>

theorem unit_slots_row_major_witness:
  "(0::int) < 3 \<and>
   list_all (\<lambda>s. unitFootprint s = 1 \<and> fixedPosition s = None)
     [item 1, item 2, item 3, item 4, item 5] \<and>
   (\<exists>res. packItems unitFootprint unitFootprint [item 1, item 2, item 3, item 4, item 5] 3 =
            Some (Inr res) \<and>
      placements res ! 4 = \<lparr>pslot = 5, pcol = 1, prow = 1, pw = 1, ph = 1\<rparr>)"
proof -
  let ?slots = "[item 1, item 2, item 3, item 4, item 5]"
  have unit: "\<forall>s\<in>set ?slots.
      unitFootprint s = 1 \<and> unitFootprint s = 1 \<and> (gridX s = None \<or> gridY s = None)"
    by (simp add: unitFootprint_def item_def)
  have "(0::int) < 3" by simp
  from unit_slots_row_major [OF this unit] obtain res where
    res: "packItems unitFootprint unitFootprint ?slots 3 = Some (Inr res)"
      "\<forall>i<length ?slots. placements res ! i =
         \<lparr>pslot = slot (?slots ! i), pcol = int i mod 3, prow = int i div 3, pw = 1, ph = 1\<rparr>"
    by blast
  from res(2) have "placements res ! 4 = \<lparr>pslot = 5, pcol = 1, prow = 1, pw = 1, ph = 1\<rparr>"
    by (simp add: item_def)
  with res(1) have "\<exists>res. packItems unitFootprint unitFootprint ?slots 3 = Some (Inr res) \<and>
      placements res ! 4 = \<lparr>pslot = 5, pcol = 1, prow = 1, pw = 1, ph = 1\<rparr>"
    by blast
  then show ?thesis
    by (simp add: unitFootprint_def fixedPosition_def item_def)
qed

subsection \<open>C7: drop targets for the uncovered cells\<close>

text \<open>
  Claim C7: the cells of the \<open>rows \<times> GRID_COLS\<close> grid that no placement covers are paired, in
  row-major scan order, with the slots that hold no item, in their order in the slot list,
  one slot per cell; the cells left when the empty slots run out get nothing. So the number
  of assignments is the smaller of the two counts, and 2 empty slots with 6 uncovered cells
  give exactly 2 assignments. The placements and the row count are those \<^verbatim>\<open>packItems\<close>
  returned for the same slots, as in the component.
\<close>

theorem empty_cells_assignment:
  assumes "packItems gw gh slotsToRender GRID_COLS = Some (Inr res)"
  shows "emptyCellSlots slotsToRender (placementMap slotsToRender (placements res)) (rows res) =
           map (\<lambda>(cell, s). (fst cell, snd cell, s))
             (zip (filter (\<lambda>cell. \<not> covered (placements res) cell) (gridCells (rows res)))
                  (filter (\<lambda>s. name s = None) slotsToRender)) \<and>
         length (emptyCellSlots slotsToRender (placementMap slotsToRender (placements res)) (rows res)) =
           min (length (filter (\<lambda>cell. \<not> covered (placements res) cell) (gridCells (rows res))))
               (length (filter (\<lambda>s. name s = None) slotsToRender)) \<and>
         (length (filter (\<lambda>cell. \<not> covered (placements res) cell) (gridCells (rows res))) = 6 \<and>
          length (filter (\<lambda>s. name s = None) slotsToRender) = 2 \<longrightarrow>
          length (emptyCellSlots slotsToRender (placementMap slotsToRender (placements res))
                    (rows res)) = 2)"
proof -
  let ?ps = "placements res"
  have "\<forall>p\<in>set ?ps. \<exists>s\<in>set slotsToRender. slot s = pslot p"
  proof
    fix p assume "p \<in> set ?ps"
    then obtain i where i: "i < length ?ps" "?ps ! i = p" by (auto simp: in_set_conv_nth)
    with packItems_length [OF assms] have "i < length slotsToRender" by simp
    with packItems_pslot [OF assms this] i show "\<exists>s\<in>set slotsToRender. slot s = pslot p"
      by (metis nth_mem)
  qed
  then have unc: "(\<lambda>cell. placementMap slotsToRender ?ps cell = None) = (\<lambda>cell. \<not> covered ?ps cell)"
    by (simp add: placementMap_None)
  have eq: "emptyCellSlots slotsToRender (placementMap slotsToRender ?ps) (rows res) =
           map (\<lambda>(cell, s). (fst cell, snd cell, s))
             (zip (filter (\<lambda>cell. \<not> covered ?ps cell) (gridCells (rows res)))
                  (filter (\<lambda>s. name s = None) slotsToRender))"
    unfolding emptyCellSlots_zip unc ..
  then show ?thesis by simp
qed

text \<open>
  Witness for C7: a \<open>10 \<times> 3\<close> item, a \<open>2 \<times> 1\<close> item and two empty slots cover 34 of the 40 cells;
  of the 6 uncovered cells \<open>(4, 3)\<close> and \<open>(5, 3)\<close> get the two empty slots.
\<close>

theorem empty_cells_assignment_witness:
  "packItems shelfWidth shelfHeight shelfSlots GRID_COLS =
     Some (Inr \<lparr>placements = [\<lparr>pslot = 1, pcol = 0, prow = 0, pw = 10, ph = 3\<rparr>,
                               \<lparr>pslot = 2, pcol = 0, prow = 3, pw = 2, ph = 1\<rparr>,
                               \<lparr>pslot = 3, pcol = 2, prow = 3, pw = 1, ph = 1\<rparr>,
                               \<lparr>pslot = 4, pcol = 3, prow = 3, pw = 1, ph = 1\<rparr>], rows = 4\<rparr>) \<and>
   length (filter (\<lambda>cell. \<not> covered [\<lparr>pslot = 1, pcol = 0, prow = 0, pw = 10, ph = 3\<rparr>,
                               \<lparr>pslot = 2, pcol = 0, prow = 3, pw = 2, ph = 1\<rparr>,
                               \<lparr>pslot = 3, pcol = 2, prow = 3, pw = 1, ph = 1\<rparr>,
                               \<lparr>pslot = 4, pcol = 3, prow = 3, pw = 1, ph = 1\<rparr>] cell)
             (gridCells 4)) = 6 \<and>
   length (filter (\<lambda>s. name s = None) shelfSlots) = 2 \<and>
   emptyCellSlots shelfSlots
     (placementMap shelfSlots [\<lparr>pslot = 1, pcol = 0, prow = 0, pw = 10, ph = 3\<rparr>,
                               \<lparr>pslot = 2, pcol = 0, prow = 3, pw = 2, ph = 1\<rparr>,
                               \<lparr>pslot = 3, pcol = 2, prow = 3, pw = 1, ph = 1\<rparr>,
                               \<lparr>pslot = 4, pcol = 3, prow = 3, pw = 1, ph = 1\<rparr>]) 4 =
     [(4, 3, emptySlot 3), (5, 3, emptySlot 4)]"
proof -
  let ?ps = "[\<lparr>pslot = 1, pcol = 0, prow = 0, pw = 10, ph = 3\<rparr>,
              \<lparr>pslot = 2, pcol = 0, prow = 3, pw = 2, ph = 1\<rparr>,
              \<lparr>pslot = 3, pcol = 2, prow = 3, pw = 1, ph = 1\<rparr>,
              \<lparr>pslot = 4, pcol = 3, prow = 3, pw = 1, ph = 1\<rparr>]"
  have cells: "filter (\<lambda>cell. \<not> covered ?ps cell) (gridCells 4) =
                 [(4, 3), (5, 3), (6, 3), (7, 3), (8, 3), (9, 3)]"
    by (simp add: gridCells_def GRID_COLS_def covered_def covers_def upto_rec1)
  have empties: "filter (\<lambda>s. name s = None) shelfSlots = [emptySlot 3, emptySlot 4]"
    by (simp add: shelfSlots_def itemAt_def emptySlot_def)
  from empty_cells_assignment [OF run_shelf] cells empties run_shelf show ?thesis by simp
qed

subsection \<open>C8: the result depends on the slot list and the column count only\<close>

text \<open>
  Claim C8: \<^verbatim>\<open>packItems\<close> is deterministic. The model is a function, so two runs on the same
  arguments agree; the theorem says more: two runs agree (in what they return, and in whether
  they return) as soon as the slot lists agree, slot by slot, on the slot number, the
  footprint and the two grid coordinates, for the same column count. Nothing else of a slot
  is read.
\<close>

theorem packItems_deterministic:
  assumes "map (\<lambda>s. (slot s, gw s, gh s, gridX s, gridY s)) slots1 =
           map (\<lambda>s. (slot s, gw' s, gh' s, gridX s, gridY s)) slots2"
  shows "packItems gw gh slots1 cols = packItems gw' gh' slots2 cols"
proof -
  from assms have "list_all2 (=) (map (\<lambda>s. (slot s, gw s, gh s, gridX s, gridY s)) slots1)
                                 (map (\<lambda>s. (slot s, gw' s, gh' s, gridX s, gridY s)) slots2)"
    by (simp add: list.rel_eq)
  then have "list_all2 (\<lambda>s t. (slot s, gw s, gh s, gridX s, gridY s) =
                               (slot t, gw' t, gh' t, gridX t, gridY t)) slots1 slots2"
    by (simp add: list.rel_map)
  then have "list_all2 (\<lambda>s t. slot s = slot t \<and> gw s = gw' t \<and> gh s = gh' t \<and>
                               fixedPosition s = fixedPosition t) slots1 slots2"
    by (rule list_all2_mono) (auto simp: fixedPosition_def split: option.splits)
  from packLoop_rel [OF this] show ?thesis
    by (simp add: packItems_def)
qed

text \<open>
  Witness for C8: two slot lists that differ in the items they hold and agree on numbers,
  footprints and coordinates.
\<close>

theorem packItems_deterministic_witness:
  "map (\<lambda>s. (slot s, unitFootprint s, unitFootprint s, gridX s, gridY s)) [item 1, itemAt 2 0 0] =
   map (\<lambda>s. (slot s, unitFootprint s, unitFootprint s, gridX s, gridY s))
     [emptySlot 1, emptySlotAt 2 0 0] \<and>
   [item 1, itemAt 2 0 0] \<noteq> [emptySlot 1, emptySlotAt 2 0 0] \<and>
   packItems unitFootprint unitFootprint [item 1, itemAt 2 0 0] 10 =
   packItems unitFootprint unitFootprint [emptySlot 1, emptySlotAt 2 0 0] 10"
proof -
  have same: "map (\<lambda>s. (slot s, unitFootprint s, unitFootprint s, gridX s, gridY s))
                [item 1, itemAt 2 0 0] =
              map (\<lambda>s. (slot s, unitFootprint s, unitFootprint s, gridX s, gridY s))
                [emptySlot 1, emptySlotAt 2 0 0]"
    by (simp add: unitFootprint_def item_def itemAt_def emptySlot_def emptySlotAt_def)
  have "[item 1, itemAt 2 0 0] \<noteq> [emptySlot 1, emptySlotAt 2 0 0]"
    by (simp add: item_def emptySlot_def)
  with packItems_deterministic [OF same, of 10] same show ?thesis by simp
qed

subsection \<open>C9: placements found by the search lie within the columns\<close>

text \<open>
  Claim C9 says that every placement has \<open>0 \<le> col\<close> and \<open>col + w \<le> cols\<close>, placements taken
  from fixed positions included. A fixed position is recorded without any check: a slot
  fixed at column 12 of a grid of 10 columns is placed at column 12.
\<close>

theorem column_range_counterexample:
  "packItems unitFootprint unitFootprint [itemAt 1 12 0] 10 =
     Some (Inr \<lparr>placements = [\<lparr>pslot = 1, pcol = 12, prow = 0, pw = 1, ph = 1\<rparr>], rows = 4\<rparr>) \<and>
   \<not> (pcol \<lparr>pslot = 1, pcol = 12, prow = 0, pw = 1, ph = 1\<rparr> +
        pw \<lparr>pslot = 1, pcol = 12, prow = 0, pw = 1, ph = 1\<rparr> \<le> 10)"
  by (simp add: pack_eval)

text \<open>
  Claim C9 as amended: whenever \<^verbatim>\<open>packItems\<close> returns, the placement of every slot without
  a fixed position has \<open>0 \<le> col\<close> and \<open>col + w \<le> cols\<close>.
\<close>

theorem placement_within_columns:
  assumes "packItems gw gh slots cols = Some (Inr res)" and "i < length slots"
    and "gridX (slots ! i) = None \<or> gridY (slots ! i) = None"
  shows "0 \<le> pcol (placements res ! i) \<and>
         pcol (placements res ! i) + pw (placements res ! i) \<le> cols"
proof -
  let ?ps = "placements res"
  from assms(1,2) obtain occ occ' where
    step: "packStep gw gh cols (occ, take i ?ps) (slots ! i) =
             Some (Inr (occ', take i ?ps @ [?ps ! i]))"
    by (rule packItems_step)
  from step show ?thesis
  proof (rule packStep_Inr)
    fix p
    assume "take i ?ps @ [?ps ! i] = take i ?ps @ [p]" and "pw p = gw (slots ! i)"
      and "gridX (slots ! i) = None \<or> gridY (slots ! i) = None \<Longrightarrow>
             firstFit cols occ (gw (slots ! i)) (gh (slots ! i)) (pcol p) (prow p)"
    with assms(3) show ?thesis by (simp add: firstFit_def)
  qed
qed

text \<open>
  Witness for C9: the last slot of the scenario of C2, placed at column 4 of 10.
\<close>

theorem placement_within_columns_witness:
  "packItems scenarioSize scenarioSize [item 1, item 2, item 3, item 4] 10 =
     Some (Inr \<lparr>placements = [\<lparr>pslot = 1, pcol = 0, prow = 0, pw = 1, ph = 1\<rparr>,
                               \<lparr>pslot = 2, pcol = 1, prow = 0, pw = 1, ph = 1\<rparr>,
                               \<lparr>pslot = 3, pcol = 2, prow = 0, pw = 2, ph = 2\<rparr>,
                               \<lparr>pslot = 4, pcol = 4, prow = 0, pw = 1, ph = 1\<rparr>], rows = 4\<rparr>) \<and>
   3 < length [item 1, item 2, item 3, item 4] \<and>
   (gridX ([item 1, item 2, item 3, item 4] ! 3) = None \<or>
    gridY ([item 1, item 2, item 3, item 4] ! 3) = None) \<and>
   (0::int) \<le> 4 \<and> (4::int) + 1 \<le> 10"
proof -
  have unfixed: "gridX ([item 1, item 2, item 3, item 4] ! 3) = None \<or>
    gridY ([item 1, item 2, item 3, item 4] ! 3) = None"
    by (simp add: item_def)
  from placement_within_columns [OF run_scenario _ unfixed] run_scenario unfixed
  show ?thesis by simp
qed

subsection \<open>C10: a position is fixed only when both coordinates are defined\<close>

text \<open>
  Claim C10: a slot has a fixed position only when both \<^verbatim>\<open>gridX\<close> and \<^verbatim>\<open>gridY\<close> are defined.
  The result of \<^verbatim>\<open>packItems\<close> depends on the two coordinates only through
  \<open>fixedPosition\<close>, which is undefined as soon as one of them is: a slot with one coordinate
  is packed as the same slot with none, its coordinate is ignored, and its placement is the
  first fit on the grid the slots before it leave. A coordinate 0 counts as defined: after an
  unpositioned slot, a slot with
  \<^verbatim>\<open>gridX = 0\<close> and \<^verbatim>\<open>gridY = 0\<close> is placed at \<open>(0, 0)\<close>, where the search would not put it, and a
  slot with \<^verbatim>\<open>gridX = 0\<close> alone is placed by the search, at \<open>(1, 0)\<close>.
\<close>

theorem fixed_only_when_both_defined:
  assumes "list_all2 (\<lambda>s t. slot s = slot t \<and> gw s = gw t \<and> gh s = gh t \<and>
                             fixedPosition s = fixedPosition t) slots1 slots2"
  shows "packItems gw gh slots1 cols = packItems gw gh slots2 cols \<and>
         (\<forall>res i. packItems gw gh slots1 cols = Some (Inr res) \<and> i < length slots1 \<and>
                  fixedPosition (slots1 ! i) = None \<longrightarrow>
            (\<exists>occ. packLoop gw gh cols ([], []) (take i slots1) =
                     Some (Inr (occ, take i (placements res))) \<and>
                   firstFit cols occ (gw (slots1 ! i)) (gh (slots1 ! i))
                     (pcol (placements res ! i)) (prow (placements res ! i)))) \<and>
         packItems unitFootprint unitFootprint [item 1, itemAt 2 0 0] 10 =
           Some (Inr \<lparr>placements = [\<lparr>pslot = 1, pcol = 0, prow = 0, pw = 1, ph = 1\<rparr>,
                                     \<lparr>pslot = 2, pcol = 0, prow = 0, pw = 1, ph = 1\<rparr>],
                      rows = 4\<rparr>) \<and>
         packItems unitFootprint unitFootprint [item 1, itemAtX 2 0] 10 =
           Some (Inr \<lparr>placements = [\<lparr>pslot = 1, pcol = 0, prow = 0, pw = 1, ph = 1\<rparr>,
                                     \<lparr>pslot = 2, pcol = 1, prow = 0, pw = 1, ph = 1\<rparr>],
                      rows = 4\<rparr>)"
proof (intro conjI allI impI)
  from packLoop_rel [OF assms] show "packItems gw gh slots1 cols = packItems gw gh slots2 cols"
    by (simp add: packItems_def)
next
  fix res i
  assume "packItems gw gh slots1 cols = Some (Inr res) \<and> i < length slots1 \<and>
          fixedPosition (slots1 ! i) = None"
  then show "\<exists>occ. packLoop gw gh cols ([], []) (take i slots1) =
                     Some (Inr (occ, take i (placements res))) \<and>
                   firstFit cols occ (gw (slots1 ! i)) (gh (slots1 ! i))
                     (pcol (placements res ! i)) (prow (placements res ! i))"
    by (intro unfixed_first_fit) (simp_all add: fixedPosition_None_iff)
next
  show "packItems unitFootprint unitFootprint [item 1, itemAt 2 0 0] 10 =
           Some (Inr \<lparr>placements = [\<lparr>pslot = 1, pcol = 0, prow = 0, pw = 1, ph = 1\<rparr>,
                                     \<lparr>pslot = 2, pcol = 0, prow = 0, pw = 1, ph = 1\<rparr>],
                      rows = 4\<rparr>)"
    by (rule run_overlap)
next
  show "packItems unitFootprint unitFootprint [item 1, itemAtX 2 0] 10 =
           Some (Inr \<lparr>placements = [\<lparr>pslot = 1, pcol = 0, prow = 0, pw = 1, ph = 1\<rparr>,
                                     \<lparr>pslot = 2, pcol = 1, prow = 0, pw = 1, ph = 1\<rparr>],
                      rows = 4\<rparr>)"
    by (simp add: pack_eval)
qed

text \<open>
  Witness for C10: a slot with \<^verbatim>\<open>gridX = 7\<close> and no \<^verbatim>\<open>gridY\<close> is packed as a slot with neither.
\<close>

theorem fixed_only_when_both_defined_witness:
  "list_all2 (\<lambda>s t. slot s = slot t \<and> unitFootprint s = unitFootprint t \<and>
                      unitFootprint s = unitFootprint t \<and> fixedPosition s = fixedPosition t)
     [item 1, itemAtX 2 7] [item 1, item 2] \<and>
   gridX (itemAtX 2 7) = Some 7 \<and> fixedPosition (itemAtX 2 7) = None \<and>
   packItems unitFootprint unitFootprint [item 1, itemAtX 2 7] 10 =
   packItems unitFootprint unitFootprint [item 1, item 2] 10"
proof -
  have rel: "list_all2 (\<lambda>s t. slot s = slot t \<and> unitFootprint s = unitFootprint t \<and>
                      unitFootprint s = unitFootprint t \<and> fixedPosition s = fixedPosition t)
     [item 1, itemAtX 2 7] [item 1, item 2]"
    by (simp add: unitFootprint_def item_def itemAtX_def fixedPosition_def)
  have "gridX (itemAtX 2 7) = Some 7" "fixedPosition (itemAtX 2 7) = None"
    by (simp_all add: itemAtX_def fixedPosition_def)
  with fixed_only_when_both_defined [OF rel, of 10] rel show ?thesis by simp
qed

end
